theory Spec2Isabelle
  imports
    Complex_Main
    "HOL-Library.Multiset"
    "HOL-Library.Char_ord"
    "HOL-Library.List_Lexorder"
    "HOL-Library.Log_Nat"
begin

section \<open>Values, rows and errors\<close>

text \<open>
  The rows handled by \<^verbatim>\<open>src/routes/sheets.py\<close> are Python dictionaries from column
  names to values read from a spreadsheet or from a JSON body. A value is one of the
  JSON scalars: \<^verbatim>\<open>None\<close>, a \<^verbatim>\<open>bool\<close>, an \<^verbatim>\<open>int\<close> (unbounded), a
  \<^verbatim>\<open>float\<close> or a \<^verbatim>\<open>str\<close>. Nested lists and dictionaries are not modelled.

  A string is the list of its UTF-8 bytes; the lexicographic order of the bytes is the
  order of the code points, which is how Python compares two \<^verbatim>\<open>str\<close>.

  The type of the floats is the parameter \<open>'f\<close> of the values, and every operation in
  which a float takes part, and every product of operands that are not both integers, is
  read from a record of parameters. Python's own operations, on IEEE-754 floats, are the
  instance \<open>python_ops\<close> defined below. What is proved for every \<open>ops\<close> holds whatever
  the arithmetic of the floats; what depends on the value of a float sum or product is
  proved for \<open>python_ops\<close>.
\<close>

datatype 'f pyval = VNone | VBool bool | VInt int | VFloat 'f | VStr string

type_synonym 'f row = "string \<rightharpoonup> 'f pyval"

datatype error = TypeError | OverflowError

record 'f py_ops =
  mul_other :: "'f pyval \<Rightarrow> 'f pyval \<Rightarrow> error + 'f pyval"
  sum_floats :: "'f pyval list \<Rightarrow> error + 'f pyval"
  lt_floats :: "'f pyval \<Rightarrow> 'f pyval \<Rightarrow> bool"
  same_key_floats :: "'f pyval \<Rightarrow> 'f pyval \<Rightarrow> bool"

text \<open>
  \<^descr>[\<open>mul_other\<close>] is \<^verbatim>\<open>a * b\<close> when \<^verbatim>\<open>a\<close> and \<^verbatim>\<open>b\<close> are not both integers
  (a float product, a string repetition, or a \<^verbatim>\<open>TypeError\<close>);
  \<^descr>[\<open>sum_floats\<close>] is \<^verbatim>\<open>sum(vs)\<close> for numbers \<^verbatim>\<open>vs\<close> of which one at least is a
  float (it raises \<^verbatim>\<open>OverflowError\<close> when an integer does not fit a float);
  \<^descr>[\<open>lt_floats\<close>] is \<^verbatim>\<open>a < b\<close> for two numbers of which one at least is a float;
  \<^descr>[\<open>same_key_floats\<close>] tells whether two such numbers are the same dictionary key.
\<close>

text \<open>A \<^verbatim>\<open>bool\<close> is an \<^verbatim>\<open>int\<close> in Python: \<^verbatim>\<open>True\<close> is 1 and \<^verbatim>\<open>False\<close> is 0.\<close>

fun as_int :: "'f pyval \<Rightarrow> int option" where
  "as_int (VBool b) = Some (if b then 1 else 0)"
| "as_int (VInt i) = Some i"
| "as_int VNone = None"
| "as_int (VFloat x) = None"
| "as_int (VStr s) = None"

text \<open>\<^verbatim>\<open>isinstance(v, (int, float))\<close>\<close>

fun is_number :: "'f pyval \<Rightarrow> bool" where
  "is_number (VBool b) = True"
| "is_number (VInt i) = True"
| "is_number (VFloat x) = True"
| "is_number VNone = False"
| "is_number (VStr s) = False"

definition bind_err :: "error + 'a \<Rightarrow> ('a \<Rightarrow> error + 'b) \<Rightarrow> error + 'b" where
  "bind_err m k = (case m of Inl e \<Rightarrow> Inl e | Inr x \<Rightarrow> k x)"

section \<open>The field deriver: \<^verbatim>\<open>process_data\<close>\<close>

text \<open>\<^verbatim>\<open>a * b\<close>: exact on integers, a parameter otherwise.\<close>

definition py_mul :: "'f py_ops \<Rightarrow> 'f pyval \<Rightarrow> 'f pyval \<Rightarrow> error + 'f pyval" where
  "py_mul ops a b =
     (case (as_int a, as_int b) of
        (Some i, Some j) \<Rightarrow> Inr (VInt (i * j))
      | _ \<Rightarrow> mul_other ops a b)"

text \<open>
  One guarded assignment of the loop body:
  \<^verbatim>\<open>if a in row and b in row: row[dst] = row[a] * row[b]\<close>.
  The row is updated in place in the source; the model returns the updated row, or the
  error the product raises.
\<close>

definition set_product ::
  "'f py_ops \<Rightarrow> string \<Rightarrow> string \<Rightarrow> string \<Rightarrow> 'f row \<Rightarrow> error + 'f row" where
  "set_product ops dst a b row =
     (case (row a, row b) of
        (Some x, Some y) \<Rightarrow>
          (case py_mul ops x y of Inl e \<Rightarrow> Inl e | Inr v \<Rightarrow> Inr (row(dst \<mapsto> v)))
      | _ \<Rightarrow> Inr row)"

text \<open>The body of the loop of \<^verbatim>\<open>process_data\<close>, for one row.\<close>

definition process_row :: "'f py_ops \<Rightarrow> 'f row \<Rightarrow> error + 'f row" where
  "process_row ops row =
     bind_err (set_product ops ''TOTAL'' ''QTY/CTN'' ''CTNS'' row) (\<lambda>row1.
     bind_err (set_product ops ''TOTAL NW'' ''CTNS'' ''NW'' row1) (\<lambda>row2.
     set_product ops ''TOTAL GW'' ''CTNS'' ''GW'' row2))"

text \<open>\<^verbatim>\<open>process_data(data_list)\<close>: the rows in order, stopping at the first error.\<close>

fun process_data :: "'f py_ops \<Rightarrow> 'f row list \<Rightarrow> error + 'f row list" where
  "process_data ops [] = Inr []"
| "process_data ops (row # rest) =
     bind_err (process_row ops row) (\<lambda>row'.
     bind_err (process_data ops rest) (\<lambda>rest'. Inr (row' # rest')))"

section \<open>Python's numbers\<close>

text \<open>
  A Python \<^verbatim>\<open>float\<close> is an IEEE-754 binary64 number: a finite value, which is a rational
  number, an infinity or a NaN. The sign of a zero is not modelled. An operation on
  finite floats is the exact operation on the rationals followed by a rounding to the
  nearest binary64 number, ties going to the even significand; a result of magnitude
  $2^{1024}$ or more after the rounding is an infinity.
\<close>

datatype pyfloat = Fin rat | PInf | NInf | NaN

text \<open>The exponent of a positive rational: \<open>2 powi ilog2 x \<le> x < 2 powi (ilog2 x + 1)\<close>.\<close>

definition ilog2 :: "rat \<Rightarrow> int" where
  "ilog2 x =
     (let (p, q) = quotient_of x;
          b = int (floorlog 2 (nat p)) - int (floorlog 2 (nat q))
      in if 2 powi b \<le> x then b else b - 1)"

definition round_half_even :: "rat \<Rightarrow> int" where
  "round_half_even x =
     (let n = \<lfloor>x\<rfloor>; r = x - of_int n
      in if r < 1 / 2 then n else if 1 / 2 < r then n + 1 else if even n then n else n + 1)"

text \<open>
  The rounding of a positive rational to 53 significant bits; below $2^{-1022}$ the
  spacing stays $2^{-1074}$ (the subnormal numbers).
\<close>

definition round_pos :: "rat \<Rightarrow> rat" where
  "round_pos x =
     (let e = max (ilog2 x) (- 1022); q = 2 powi (e - 52)
      in of_int (round_half_even (x / q)) * q)"

definition to_double :: "rat \<Rightarrow> pyfloat" where
  "to_double x =
     (if x = 0 then Fin 0
      else let y = round_pos \<bar>x\<bar>
           in if 2 powi 1024 \<le> y then (if 0 < x then PInf else NInf)
              else Fin (if 0 < x then y else - y))"

text \<open>\<^verbatim>\<open>float(i)\<close> raises \<^verbatim>\<open>OverflowError\<close> when the integer is too large for a float.\<close>

definition float_of_int :: "int \<Rightarrow> error + pyfloat" where
  "float_of_int i =
     (case to_double (of_int i) of Fin y \<Rightarrow> Inr (Fin y) | _ \<Rightarrow> Inl OverflowError)"

fun fadd :: "pyfloat \<Rightarrow> pyfloat \<Rightarrow> pyfloat" where
  "fadd (Fin a) (Fin b) = to_double (a + b)"
| "fadd NaN y = NaN"
| "fadd x NaN = NaN"
| "fadd PInf NInf = NaN"
| "fadd NInf PInf = NaN"
| "fadd PInf y = PInf"
| "fadd x PInf = PInf"
| "fadd NInf y = NInf"
| "fadd x NInf = NInf"

fun fmul :: "pyfloat \<Rightarrow> pyfloat \<Rightarrow> pyfloat" where
  "fmul (Fin a) (Fin b) = to_double (a * b)"
| "fmul NaN y = NaN"
| "fmul x NaN = NaN"
| "fmul (Fin a) PInf = (if a = 0 then NaN else if 0 < a then PInf else NInf)"
| "fmul (Fin a) NInf = (if a = 0 then NaN else if 0 < a then NInf else PInf)"
| "fmul PInf (Fin b) = (if b = 0 then NaN else if 0 < b then PInf else NInf)"
| "fmul NInf (Fin b) = (if b = 0 then NaN else if 0 < b then NInf else PInf)"
| "fmul PInf PInf = PInf"
| "fmul PInf NInf = NInf"
| "fmul NInf PInf = NInf"
| "fmul NInf NInf = PInf"

text \<open>\<^verbatim>\<open>x < y\<close> and \<^verbatim>\<open>x == y\<close> on floats: a NaN is smaller than nothing and equal to nothing.\<close>

fun float_lt :: "pyfloat \<Rightarrow> pyfloat \<Rightarrow> bool" where
  "float_lt (Fin a) (Fin b) = (a < b)"
| "float_lt NaN y = False"
| "float_lt x NaN = False"
| "float_lt x NInf = False"
| "float_lt PInf y = False"
| "float_lt NInf y = True"
| "float_lt x PInf = True"

fun float_eq :: "pyfloat \<Rightarrow> pyfloat \<Rightarrow> bool" where
  "float_eq (Fin a) (Fin b) = (a = b)"
| "float_eq PInf PInf = True"
| "float_eq NInf NInf = True"
| "float_eq x y = False"

text \<open>
  Python compares an integer with a float by their exact values: the value of a number,
  an integer taken as it is, without rounding.
\<close>

definition num_val :: "pyfloat pyval \<Rightarrow> pyfloat" where
  "num_val v = (case v of VFloat x \<Rightarrow> x | _ \<Rightarrow> (case as_int v of Some i \<Rightarrow> Fin (of_int i) | None \<Rightarrow> NaN))"

text \<open>In arithmetic with a float an integer is first converted to a float.\<close>

definition as_float :: "pyfloat pyval \<Rightarrow> error + pyfloat" where
  "as_float v =
     (case v of VFloat x \<Rightarrow> Inr x
      | _ \<Rightarrow> (case as_int v of Some i \<Rightarrow> float_of_int i | None \<Rightarrow> Inl TypeError))"

text \<open>\<^verbatim>\<open>a + b\<close> on two numbers.\<close>

definition num_add :: "pyfloat pyval \<Rightarrow> pyfloat pyval \<Rightarrow> error + pyfloat pyval" where
  "num_add a b =
     (case (as_int a, as_int b) of
        (Some i, Some j) \<Rightarrow> Inr (VInt (i + j))
      | _ \<Rightarrow> bind_err (as_float a) (\<lambda>x. bind_err (as_float b) (\<lambda>y. Inr (VFloat (fadd x y)))))"

text \<open>
  \<^verbatim>\<open>sum(vs)\<close>: the items are added one after the other, from left to right, to the
  start value, the integer 0. (From version 3.12 on CPython compensates the rounding
  errors of a sum of floats; the model adds as the versions before do.)
\<close>

fun sum_from :: "pyfloat pyval \<Rightarrow> pyfloat pyval list \<Rightarrow> error + pyfloat pyval" where
  "sum_from acc [] = Inr acc"
| "sum_from acc (v # vs) = bind_err (num_add acc v) (\<lambda>acc'. sum_from acc' vs)"

text \<open>
  \<^verbatim>\<open>s * n\<close> on a string and an integer: the string repeated, the empty string when
  \<^verbatim>\<open>n\<close> is not positive, and \<^verbatim>\<open>OverflowError\<close> when \<^verbatim>\<open>n\<close> does not fit a machine index.
  The exhaustion of memory by a long repetition is not modelled.
\<close>

definition str_repeat :: "string \<Rightarrow> int \<Rightarrow> error + pyfloat pyval" where
  "str_repeat s n =
     (if - (2 ^ 63) \<le> n \<and> n < 2 ^ 63 then Inr (VStr (concat (replicate (nat n) s)))
      else Inl OverflowError)"

text \<open>\<^verbatim>\<open>a * b\<close> when the operands are not both integers.\<close>

definition mul_mixed :: "pyfloat pyval \<Rightarrow> pyfloat pyval \<Rightarrow> error + pyfloat pyval" where
  "mul_mixed a b =
     (if is_number a \<and> is_number b
      then bind_err (as_float a) (\<lambda>x. bind_err (as_float b) (\<lambda>y. Inr (VFloat (fmul x y))))
      else case (a, as_int b, as_int a, b) of
             (VStr s, Some n, _, _) \<Rightarrow> str_repeat s n
           | (_, _, Some n, VStr s) \<Rightarrow> str_repeat s n
           | _ \<Rightarrow> Inl TypeError)"

text \<open>
  Whether two numbers, of which one is a float, are one dictionary key: when they are
  equal. A NaN is equal to nothing, and a dictionary finds it by identity only; the JSON
  decoder yields one NaN object for every \<^verbatim>\<open>NaN\<close> it reads, so that two NaN are one key.
\<close>

definition same_number_key :: "pyfloat pyval \<Rightarrow> pyfloat pyval \<Rightarrow> bool" where
  "same_number_key a b =
     (float_eq (num_val a) (num_val b) \<or> (num_val a = NaN \<and> num_val b = NaN))"

text \<open>The operations of Python, for the parameters of the model.\<close>

definition python_ops :: "pyfloat py_ops" where
  "python_ops =
     \<lparr> mul_other = mul_mixed,
       sum_floats = sum_from (VInt 0),
       lt_floats = (\<lambda>a b. float_lt (num_val a) (num_val b)),
       same_key_floats = same_number_key \<rparr>"

section \<open>The aggregator: \<^verbatim>\<open>sort_and_subtotal\<close> of \<^verbatim>\<open>sheets.py\<close>\<close>

text \<open>The sort key \<^verbatim>\<open>x.get('ITEM', '')\<close> and the group key \<^verbatim>\<open>row.get('ITEM', 'Unknown')\<close>.\<close>

definition sort_item :: "'f row \<Rightarrow> 'f pyval" where
  "sort_item x = (case x ''ITEM'' of None \<Rightarrow> VStr '''' | Some v \<Rightarrow> v)"

definition group_item :: "'f row \<Rightarrow> 'f pyval" where
  "group_item row = (case row ''ITEM'' of None \<Rightarrow> VStr ''Unknown'' | Some v \<Rightarrow> v)"

text \<open>
  \<^verbatim>\<open>a < b\<close> on two keys: two strings compare lexicographically, two numbers by value,
  and every other pair raises \<^verbatim>\<open>TypeError\<close> (\<^verbatim>\<open>None\<close> is ordered with nothing).
\<close>

fun py_lt :: "'f py_ops \<Rightarrow> 'f pyval \<Rightarrow> 'f pyval \<Rightarrow> error + bool" where
  "py_lt ops (VStr s) (VStr t) = Inr (s < t)"
| "py_lt ops a b =
     (if is_number a \<and> is_number b
      then (case (as_int a, as_int b) of
              (Some i, Some j) \<Rightarrow> Inr (i < j)
            | _ \<Rightarrow> Inr (lt_floats ops a b))
      else Inl TypeError)"

text \<open>
  \<^verbatim>\<open>sorted(data_list, key=...)\<close> is stable and compares keys with \<^verbatim>\<open><\<close> only. It is
  modelled by the stable insertion sort: a row is put in front of the first row of the
  sorted rest whose key is not smaller than its own, and the first comparison that
  raises ends the sort. On keys that are pairwise ordered this is the one stable sorted
  arrangement; two rows are compared as CPython compares them (\<^verbatim>\<open>key(second) < key(first)\<close>).
\<close>

fun insort_py :: "'f py_ops \<Rightarrow> 'f row \<Rightarrow> 'f row list \<Rightarrow> error + 'f row list" where
  "insort_py ops x [] = Inr [x]"
| "insort_py ops x (y # ys) =
     bind_err (py_lt ops (sort_item y) (sort_item x)) (\<lambda>smaller.
       if smaller then bind_err (insort_py ops x ys) (\<lambda>zs. Inr (y # zs))
       else Inr (x # y # ys))"

fun sorted_py :: "'f py_ops \<Rightarrow> 'f row list \<Rightarrow> error + 'f row list" where
  "sorted_py ops [] = Inr []"
| "sorted_py ops (x # xs) = bind_err (sorted_py ops xs) (insort_py ops x)"

text \<open>
  Whether two values are the same dictionary key (equal hash and \<^verbatim>\<open>==\<close>): \<^verbatim>\<open>True\<close>, \<^verbatim>\<open>1\<close>
  and \<^verbatim>\<open>1.0\<close> are one key.
\<close>

fun same_key :: "'f py_ops \<Rightarrow> 'f pyval \<Rightarrow> 'f pyval \<Rightarrow> bool" where
  "same_key ops (VStr s) (VStr t) = (s = t)"
| "same_key ops VNone VNone = True"
| "same_key ops a b =
     (if is_number a \<and> is_number b
      then (case (as_int a, as_int b) of
              (Some i, Some j) \<Rightarrow> i = j
            | _ \<Rightarrow> same_key_floats ops a b)
      else False)"

text \<open>
  The grouping loop. \<^verbatim>\<open>items\<close> is a dictionary, which keeps its keys in the order
  of their first insertion: an association list from group key to the rows of the group.
  \<^verbatim>\<open>if item not in items: items[item] = []\<close> followed by \<^verbatim>\<open>items[item].append(row)\<close>
  is one step.
\<close>

fun append_row ::
  "'f py_ops \<Rightarrow> 'f pyval \<Rightarrow> 'f row \<Rightarrow> ('f pyval \<times> 'f row list) list
     \<Rightarrow> ('f pyval \<times> 'f row list) list" where
  "append_row ops item row [] = [(item, [row])]"
| "append_row ops item row ((k, rows) # items) =
     (if same_key ops k item then (k, rows @ [row]) # items
      else (k, rows) # append_row ops item row items)"

definition group_rows :: "'f py_ops \<Rightarrow> 'f row list \<Rightarrow> ('f pyval \<times> 'f row list) list" where
  "group_rows ops data_sorted =
     foldl (\<lambda>items row. append_row ops (group_item row) row items) [] data_sorted"

definition numeric_fields :: "string list" where
  "numeric_fields = [''CTNS'', ''TOTAL'', ''TOTAL NW'', ''TOTAL GW'', ''QTY/CTN'', ''NW'', ''GW'']"

text \<open>\<^verbatim>\<open>any(field in row for row in rows)\<close>\<close>

definition any_has :: "string \<Rightarrow> 'f row list \<Rightarrow> bool" where
  "any_has field rows = (\<exists>row \<in> set rows. row field \<noteq> None)"

text \<open>
  The generator \<^verbatim>\<open>row.get(field, 0) for row in rows if isinstance(row.get(field), (int, float))\<close>:
  the values of the field that are numbers, in the order of the rows. A row without the
  field gives \<^verbatim>\<open>None\<close> to \<^verbatim>\<open>isinstance\<close> and is skipped.
\<close>

definition summand :: "string \<Rightarrow> 'f row \<Rightarrow> 'f pyval option" where
  "summand field row =
     (case row field of None \<Rightarrow> None | Some v \<Rightarrow> if is_number v then Some v else None)"

definition summands :: "string \<Rightarrow> 'f row list \<Rightarrow> 'f pyval list" where
  "summands field rows = List.map_filter (summand field) rows"

text \<open>
  \<^verbatim>\<open>sum(vs)\<close> starts from the integer 0. On integers (and booleans) the result is their
  exact integer sum; with a float among the values it is the parameter \<open>sum_floats\<close>.
\<close>

definition int_of :: "'f pyval \<Rightarrow> int" where
  "int_of v = (case as_int v of Some i \<Rightarrow> i | None \<Rightarrow> 0)"

definition py_sum :: "'f py_ops \<Rightarrow> 'f pyval list \<Rightarrow> error + 'f pyval" where
  "py_sum ops vs =
     (if list_all (\<lambda>v. as_int v \<noteq> None) vs then Inr (VInt (sum_list (map int_of vs)))
      else sum_floats ops vs)"

text \<open>
  The loop \<^verbatim>\<open>for field in numeric_fields: if any(...): subtotal[field] = sum(...)\<close>,
  which fills the dictionary \<^verbatim>\<open>subtotal\<close> (or \<^verbatim>\<open>grand_total\<close>) from the empty one.
\<close>

fun sum_fields :: "'f py_ops \<Rightarrow> string list \<Rightarrow> 'f row list \<Rightarrow> 'f row \<Rightarrow> error + 'f row" where
  "sum_fields ops [] rows acc = Inr acc"
| "sum_fields ops (field # fs) rows acc =
     (if any_has field rows
      then bind_err (py_sum ops (summands field rows)) (\<lambda>v.
             sum_fields ops fs rows (acc(field \<mapsto> v)))
      else sum_fields ops fs rows acc)"

definition totals :: "'f py_ops \<Rightarrow> 'f row list \<Rightarrow> error + 'f row" where
  "totals ops rows = sum_fields ops numeric_fields rows Map.empty"

text \<open>
  The loop \<^verbatim>\<open>for item, rows in items.items(): ... result['subtotals'][item] = subtotal\<close>.
  The keys of \<^verbatim>\<open>items\<close> are pairwise different keys, so each assignment adds an entry
  to \<^verbatim>\<open>result['subtotals']\<close>, in the order of \<^verbatim>\<open>items\<close>.
\<close>

fun subtotal_items ::
  "'f py_ops \<Rightarrow> ('f pyval \<times> 'f row list) list \<Rightarrow> error + ('f pyval \<times> 'f row) list" where
  "subtotal_items ops [] = Inr []"
| "subtotal_items ops ((item, rows) # items) =
     bind_err (totals ops rows) (\<lambda>subtotal.
     bind_err (subtotal_items ops items) (\<lambda>rest. Inr ((item, subtotal) # rest)))"

text \<open>The dictionary \<^verbatim>\<open>result\<close> with its three keys.\<close>

record 'f report =
  data :: "'f row list"
  subtotals :: "('f pyval \<times> 'f row) list"
  grand_total :: "'f row"

definition sort_and_subtotal :: "'f py_ops \<Rightarrow> 'f row list \<Rightarrow> error + 'f report" where
  "sort_and_subtotal ops data_list =
     bind_err (sorted_py ops data_list) (\<lambda>data_sorted.
     bind_err (subtotal_items ops (group_rows ops data_sorted)) (\<lambda>subs.
     bind_err (totals ops data_sorted) (\<lambda>total.
     Inr \<lparr> data = data_sorted, subtotals = subs, grand_total = total \<rparr>)))"

section \<open>The offline variant: \<^verbatim>\<open>sort_and_subtotal\<close> of \<^verbatim>\<open>data_structure.py\<close>\<close>

text \<open>
  \<^verbatim>\<open>data_structure.py\<close> builds the report as a pandas DataFrame. A DataFrame is the list of
  its rows. The column \<open>ITEM\<close> holds strings (\<^verbatim>\<open>DATA_HEADERS\<close> declares \<^verbatim>\<open>'ITEM': str\<close>);
  the other columns of a row are a dictionary, where an absent key is pandas' \<^verbatim>\<open>NaN\<close>.

  pandas is not part of the repository. The row order \<^verbatim>\<open>sort_values(by='ITEM')\<close>
  produces and the sum of a column are parameters; the theorems say what they need of them.
\<close>

record 'f df_row =
  df_item :: string
  df_cells :: "string \<rightharpoonup> 'f pyval"

record 'f pd_ops =
  sort_values :: "'f df_row list \<Rightarrow> 'f df_row list"
  column_sum :: "string \<Rightarrow> 'f df_row list \<Rightarrow> 'f pyval"

text \<open>\<^verbatim>\<open>Series.unique()\<close>: the values in the order of their first appearance.\<close>

definition unique :: "'a list \<Rightarrow> 'a list" where
  "unique xs = foldl (\<lambda>seen x. if x \<in> set seen then seen else seen @ [x]) [] xs"

text \<open>The four aggregated columns \<open>CTNS\<close>, \<open>TOTAL\<close>, \<open>TOTAL NW\<close>, \<open>TOTAL GW\<close> of some rows.\<close>

definition sum_columns :: "'f pd_ops \<Rightarrow> 'f df_row list \<Rightarrow> (string \<rightharpoonup> 'f pyval)" where
  "sum_columns pd rows =
     [''CTNS'' \<mapsto> column_sum pd ''CTNS'' rows, ''TOTAL'' \<mapsto> column_sum pd ''TOTAL'' rows,
      ''TOTAL NW'' \<mapsto> column_sum pd ''TOTAL NW'' rows,
      ''TOTAL GW'' \<mapsto> column_sum pd ''TOTAL GW'' rows]"

text \<open>
  \<^verbatim>\<open>groupby('ITEM').agg({...: 'sum'}).reset_index()\<close> gives one row for each \<open>ITEM\<close>,
  the keys in ascending order, and \<^verbatim>\<open>subtotals['ITEM'] + ' Subtotal'\<close> relabels the rows.
\<close>

definition subtotal_row :: "'f pd_ops \<Rightarrow> 'f df_row list \<Rightarrow> string \<Rightarrow> 'f df_row" where
  "subtotal_row pd df_sorted k =
     \<lparr> df_item = k @ '' Subtotal'',
       df_cells = sum_columns pd (filter (\<lambda>r. df_item r = k) df_sorted) \<rparr>"

definition group_subtotals :: "'f pd_ops \<Rightarrow> 'f df_row list \<Rightarrow> 'f df_row list" where
  "group_subtotals pd df_sorted =
     map (subtotal_row pd df_sorted) (sort (remdups (map df_item df_sorted)))"

definition grand_total_row :: "'f pd_ops \<Rightarrow> 'f df_row list \<Rightarrow> 'f df_row" where
  "grand_total_row pd df_sorted =
     \<lparr> df_item = ''Grand Total'', df_cells = sum_columns pd df_sorted \<rparr>"

text \<open>
  The loop over \<^verbatim>\<open>df_sorted['ITEM'].unique()\<close> appends, for each item, the rows of the
  item and then the rows of \<^verbatim>\<open>subtotals\<close> labelled \<^verbatim>\<open>item + ' Subtotal'\<close>; the grand
  total is appended last.
\<close>

definition sort_and_subtotal_df :: "'f pd_ops \<Rightarrow> 'f df_row list \<Rightarrow> 'f df_row list" where
  "sort_and_subtotal_df pd df =
     (let df_sorted = sort_values pd df;
          subs = group_subtotals pd df_sorted;
          result_df =
            foldl (\<lambda>result_df k.
                     (result_df @ filter (\<lambda>r. df_item r = k) df_sorted)
                       @ filter (\<lambda>s. df_item s = k @ '' Subtotal'') subs)
                  [] (unique (map df_item df_sorted))
      in result_df @ [grand_total_row pd df_sorted])"

section \<open>Notions used in the statements\<close>

text \<open>A row whose \<open>ITEM\<close> is absent or a string, as the data model of the report has it.\<close>

fun is_str :: "'f pyval \<Rightarrow> bool" where
  "is_str (VStr s) = True"
| "is_str v = False"

definition item_is_str :: "'f row \<Rightarrow> bool" where
  "item_is_str row = (case row ''ITEM'' of None \<Rightarrow> True | Some v \<Rightarrow> is_str v)"

text \<open>The string by which such a row is sorted: its \<open>ITEM\<close>, or the empty string.\<close>

definition item_text :: "'f row \<Rightarrow> string" where
  "item_text row = (case sort_item row of VStr s \<Rightarrow> s | _ \<Rightarrow> [])"

text \<open>No row holds a float in the field.\<close>

fun is_float :: "'f pyval \<Rightarrow> bool" where
  "is_float (VFloat x) = True"
| "is_float v = False"

definition no_float_at :: "string \<Rightarrow> 'f row list \<Rightarrow> bool" where
  "no_float_at field rows =
     list_all (\<lambda>row. case row field of None \<Rightarrow> True | Some v \<Rightarrow> \<not> is_float v) rows"

text \<open>
  What a row contributes to the integer sum of a field: the integer it holds there,
  and 0 when the field is missing or holds no number.
\<close>

definition field_int :: "string \<Rightarrow> 'f row \<Rightarrow> int" where
  "field_int field row = (case row field of None \<Rightarrow> 0 | Some v \<Rightarrow> int_of v)"

text \<open>
  The lists of rows over which the aggregation takes its sums: each group of the sorted
  rows, and the sorted rows as a whole.
\<close>

definition summed_lists :: "'f py_ops \<Rightarrow> 'f row list \<Rightarrow> 'f row list list" where
  "summed_lists ops rows =
     (case sorted_py ops rows of
        Inl e \<Rightarrow> []
      | Inr data_sorted \<Rightarrow> map snd (group_rows ops data_sorted) @ [data_sorted])"

text \<open>The sum of a field over some rows is not taken, or it raises nothing.\<close>

definition sum_defined :: "'f py_ops \<Rightarrow> string \<Rightarrow> 'f row list \<Rightarrow> bool" where
  "sum_defined ops field rows =
     (any_has field rows \<longrightarrow>
        (case py_sum ops (summands field rows) of Inl e \<Rightarrow> False | Inr v \<Rightarrow> True))"

text \<open>None of the sums the aggregation takes of the rows raises.\<close>

definition sums_defined :: "'f py_ops \<Rightarrow> 'f row list \<Rightarrow> bool" where
  "sums_defined ops rows =
     list_all (\<lambda>rs. list_all (\<lambda>field. sum_defined ops field rs) numeric_fields)
       (summed_lists ops rows)"

text \<open>
  The product a formula of the field deriver asks for, where it is a number: the exact
  product of two integers and, when an operand is a float, the product of the two numbers
  as real numbers, rounded to a float. An integer operand of a float product is taken up
  to $2^{53}$ in absolute value, as far as every integer is a float.
\<close>

definition real_value :: "pyfloat pyval \<Rightarrow> rat option" where
  "real_value v =
     (case v of
        VFloat x \<Rightarrow> (case x of Fin d \<Rightarrow> Some d | _ \<Rightarrow> None)
      | _ \<Rightarrow> (case as_int v of
                Some i \<Rightarrow> if \<bar>i\<bar> \<le> 2 ^ 53 then Some (of_int i) else None
              | None \<Rightarrow> None))"

definition real_product :: "pyfloat pyval \<Rightarrow> pyfloat pyval \<Rightarrow> pyfloat pyval option" where
  "real_product x y =
     (case (as_int x, as_int y) of
        (Some i, Some j) \<Rightarrow> Some (VInt (i * j))
      | _ \<Rightarrow> (case (real_value x, real_value y) of
                (Some p, Some q) \<Rightarrow> Some (VFloat (to_double (p * q)))
              | _ \<Rightarrow> None))"

text \<open>
  What the field deriver has done to a destination field \<open>dst\<close> with the sources \<open>a\<close>
  and \<open>b\<close>, from the row \<open>r\<close> to the row \<open>r'\<close>: with both sources present \<open>dst\<close> holds
  their product, which is the product above where that is defined; with a source absent
  \<open>dst\<close> is as it was in \<open>r\<close>, present or not.
\<close>

definition derived :: "string \<Rightarrow> string \<Rightarrow> string \<Rightarrow> pyfloat row \<Rightarrow> pyfloat row \<Rightarrow> bool" where
  "derived dst a b r r' =
     (case (r a, r b) of
        (Some x, Some y) \<Rightarrow>
          (case py_mul python_ops x y of
             Inl e \<Rightarrow> False
           | Inr v \<Rightarrow> r' dst = Some v
                      \<and> (case real_product x y of None \<Rightarrow> True | Some w \<Rightarrow> v = w))
      | _ \<Rightarrow> r' dst = r dst)"

section \<open>Concrete rows\<close>

text \<open>Rows on which the model is run below; none holds a float.\<close>

definition row_full :: "pyfloat row" where
  "row_full = [''ITEM'' \<mapsto> VStr ''CABLE'', ''QTY/CTN'' \<mapsto> VInt 50, ''CTNS'' \<mapsto> VInt 10,
               ''NW'' \<mapsto> VInt 2, ''GW'' \<mapsto> VInt 3]"

definition row_partial :: "pyfloat row" where
  "row_partial = [''QTY/CTN'' \<mapsto> VInt 10]"

text \<open>
  The record \<open>USB Cable\<close> of the example data of \<^verbatim>\<open>data_structure.py\<close>, with the floats
  \<open>NW = 0.2\<close> and \<open>GW = 0.25\<close>.
\<close>

definition row_usb :: "pyfloat row" where
  "row_usb = [''ITEM'' \<mapsto> VStr ''CABLE'', ''MODEL'' \<mapsto> VStr ''USB Cable'',
              ''QTY/CTN'' \<mapsto> VInt 100, ''CTNS'' \<mapsto> VInt 7,
              ''NW'' \<mapsto> VFloat (Fin (3602879701896397 / 18014398509481984)),
              ''GW'' \<mapsto> VFloat (Fin (1 / 4))]"

text \<open>The three records of the sort example, and two records whose \<open>ITEM\<close> differ in type.\<close>

definition row_Bx :: "'f row" where
  "row_Bx = [''ITEM'' \<mapsto> VStr ''B'', ''MODEL'' \<mapsto> VStr ''x'']"

definition row_Ay :: "'f row" where
  "row_Ay = [''ITEM'' \<mapsto> VStr ''A'', ''MODEL'' \<mapsto> VStr ''y'']"

definition row_Bz :: "'f row" where
  "row_Bz = [''ITEM'' \<mapsto> VStr ''B'', ''MODEL'' \<mapsto> VStr ''z'']"

definition row_item_A :: "'f row" where
  "row_item_A = [''ITEM'' \<mapsto> VStr ''A'']"

definition row_item_1 :: "'f row" where
  "row_item_1 = [''ITEM'' \<mapsto> VInt 1]"

text \<open>
  Two records of the group \<open>CABLE\<close>, one of them without \<open>GW\<close>, and a record of the
  group \<open>POWER\<close> whose \<open>GW\<close> is not a number.
\<close>

definition row_c1 :: "'f row" where
  "row_c1 = [''ITEM'' \<mapsto> VStr ''CABLE'', ''CTNS'' \<mapsto> VInt 10, ''TOTAL'' \<mapsto> VInt 500]"

definition row_c2 :: "'f row" where
  "row_c2 = [''ITEM'' \<mapsto> VStr ''CABLE'', ''CTNS'' \<mapsto> VInt 7, ''TOTAL'' \<mapsto> VInt 700,
             ''GW'' \<mapsto> VInt 20]"

definition row_p :: "'f row" where
  "row_p = [''ITEM'' \<mapsto> VStr ''POWER'', ''CTNS'' \<mapsto> VInt 3, ''GW'' \<mapsto> VStr ''n/a'']"

text \<open>
  Records with floats. The floats \<^verbatim>\<open>0.1\<close>, \<^verbatim>\<open>0.2\<close> and \<^verbatim>\<open>0.5\<close> are the binary64
  numbers $3602879701896397 / 2^{55}$, $3602879701896397 / 2^{54}$ and $1/2$.
\<close>

definition row_tenth :: "pyfloat row" where
  "row_tenth = [''ITEM'' \<mapsto> VStr ''A'', ''NW'' \<mapsto> VFloat (Fin (3602879701896397 / 36028797018963968))]"

definition row_fifth :: "pyfloat row" where
  "row_fifth = [''ITEM'' \<mapsto> VStr ''B'', ''MODEL'' \<mapsto> VStr ''x'',
                ''NW'' \<mapsto> VFloat (Fin (3602879701896397 / 18014398509481984))]"

definition row_half :: "pyfloat row" where
  "row_half = [''ITEM'' \<mapsto> VStr ''B'', ''MODEL'' \<mapsto> VStr ''y'', ''NW'' \<mapsto> VFloat (Fin (1 / 2))]"

definition row_int :: "pyfloat row" where
  "row_int = [''ITEM'' \<mapsto> VStr ''B'', ''MODEL'' \<mapsto> VStr ''w'', ''NW'' \<mapsto> VInt 18]"

text \<open>A record without \<open>ITEM\<close> and a record whose \<open>ITEM\<close> is the empty string.\<close>

definition row_no_item :: "'f row" where
  "row_no_item = [''MODEL'' \<mapsto> VStr ''m'']"

definition row_empty_item :: "'f row" where
  "row_empty_item = [''ITEM'' \<mapsto> VStr '''']"

text \<open>
  An instance of the pandas parameters for running the model: a stable sort by
  \<open>ITEM\<close>, and the integer sum of a column.
\<close>

definition list_pd_ops :: "pyfloat pd_ops" where
  "list_pd_ops =
     \<lparr> sort_values = sort_key df_item,
       column_sum = (\<lambda>c rows. VInt (sum_list (map (\<lambda>r. field_int c (df_cells r)) rows))) \<rparr>"

text \<open>Three rows of a DataFrame.\<close>

definition df_power :: "pyfloat df_row" where
  "df_power = \<lparr> df_item = ''POWER'', df_cells = [''CTNS'' \<mapsto> VInt 3] \<rparr>"

definition df_cable1 :: "pyfloat df_row" where
  "df_cable1 = \<lparr> df_item = ''CABLE'', df_cells = [''CTNS'' \<mapsto> VInt 10] \<rparr>"

definition df_cable2 :: "pyfloat df_row" where
  "df_cable2 = \<lparr> df_item = ''CABLE'', df_cells = [''CTNS'' \<mapsto> VInt 7] \<rparr>"

section \<open>Properties of Python's numbers\<close>

subsection \<open>The rounding\<close>

lemma nat_bits:
  assumes "0 < (n::nat)"
  shows "(2::rat) ^ (floorlog 2 n - 1) \<le> of_nat n" "of_nat n < (2::rat) ^ floorlog 2 n" "0 < floorlog 2 n"
proof -
  from floorlog_bounds[of n 2] assms
  have a: "2 ^ (floorlog 2 n - 1) \<le> n" and b: "n < 2 ^ floorlog 2 n" by auto
  from a have "of_nat (2 ^ (floorlog 2 n - 1)) \<le> (of_nat n :: rat)" by (simp only: of_nat_le_iff)
  then show "(2::rat) ^ (floorlog 2 n - 1) \<le> of_nat n" by simp
  from b have "(of_nat n :: rat) < of_nat (2 ^ floorlog 2 n)" by (simp only: of_nat_less_iff)
  then show "of_nat n < (2::rat) ^ floorlog 2 n" by simp
  show "0 < floorlog 2 n" using assms by (simp add: floorlog_def)
qed

lemma ilog2_bounds:
  assumes "0 < x"
  shows "2 powi ilog2 x \<le> x \<and> x < 2 powi (ilog2 x + 1)"
proof -
  obtain p q where pq: "quotient_of x = (p, q)" by (cases "quotient_of x")
  have q: "0 < q" using quotient_of_denom_pos[OF pq] .
  have x: "x = of_int p / of_int q" using quotient_of_div[OF pq] .
  have p: "0 < p" using assms q x by (simp add: zero_less_divide_iff)
  define bp where "bp = floorlog 2 (nat p)"
  define bq where "bq = floorlog 2 (nat q)"
  define b where "b = int bp - int bq"
  have P: "(2::rat) ^ (bp - 1) \<le> of_int p" "of_int p < (2::rat) ^ bp" "0 < bp"
    using nat_bits[of "nat p"] p by (simp_all add: bp_def)
  have Q: "(2::rat) ^ (bq - 1) \<le> of_int q" "of_int q < (2::rat) ^ bq" "0 < bq"
    using nat_bits[of "nat q"] q by (simp_all add: bq_def)
  have qpos: "(0::rat) < of_int q" using q by simp
  have up: "x < 2 powi (b + 1)"
  proof -
    have "x * of_int q = of_int p" using x qpos by simp
    also have "\<dots> < 2 ^ bp" by (rule P)
    also have "\<dots> = (2::rat) powi (b + 1) * 2 ^ (bq - 1)"
      using Q(3) by (simp add: b_def power_int_add power_int_diff flip: power_int_of_nat)
    also have "\<dots> \<le> 2 powi (b + 1) * of_int q"
      using Q(1) by (intro mult_left_mono) simp_all
    finally show ?thesis using qpos by simp
  qed
  have lo: "2 powi (b - 1) \<le> x"
  proof -
    have "of_int q \<le> (2::rat) ^ bq" using Q(2) by simp
    then have "(2::rat) powi (b - 1) * of_int q \<le> 2 powi (b - 1) * 2 ^ bq"
      by (intro mult_left_mono) simp_all
    also have "\<dots> = 2 ^ (bp - 1)"
      using P(3) by (simp add: b_def power_int_add power_int_diff flip: power_int_of_nat)
    also have "\<dots> \<le> of_int p" by (rule P)
    finally show ?thesis using qpos x by (simp add: pos_le_divide_eq)
  qed
  have e: "ilog2 x = (if 2 powi b \<le> x then b else b - 1)"
    by (simp add: ilog2_def pq Let_def b_def bp_def bq_def)
  show ?thesis
  proof (cases "2 powi b \<le> x")
    case True
    then show ?thesis using up e by simp
  next
    case False
    then show ?thesis using lo e by simp
  qed
qed

lemma pow2_less_cancel:
  assumes "2 powi a < (2::rat) powi b"
  shows "a < b"
proof (rule ccontr)
  assume "\<not> a < b"
  then have "b \<le> a" by simp
  then have "(2::rat) powi b \<le> 2 powi a" by (intro power_int_increasing) simp_all
  with assms show False by simp
qed

lemma ilog2_eqI:
  assumes "2 powi e \<le> x" and "x < 2 powi (e + 1)"
  shows "ilog2 x = e"
proof -
  have "(0::rat) < 2 powi e" by simp
  then have pos: "0 < x" using assms(1) by linarith
  note b = ilog2_bounds[OF pos]
  have "2 powi e < (2::rat) powi (ilog2 x + 1)" using assms(1) b by linarith
  then have 1: "e < ilog2 x + 1" by (rule pow2_less_cancel)
  have "2 powi ilog2 x < (2::rat) powi (e + 1)" using assms(2) b by linarith
  then have 2: "ilog2 x < e + 1" by (rule pow2_less_cancel)
  from 1 2 show ?thesis by simp
qed

lemma round_half_even_of_int [simp]: "round_half_even (of_int n) = n"
  by (simp add: round_half_even_def)

lemma round_half_even_eqI:
  assumes "\<bar>x - of_int n\<bar> < 1 / 2 \<or> (\<bar>x - of_int n\<bar> = 1 / 2 \<and> even n)"
  shows "round_half_even x = n"
proof -
  define m where "m = \<lfloor>x\<rfloor>"
  have m: "of_int m \<le> x" "x < of_int m + 1"
    unfolding m_def by linarith+
  from assms have near: "\<bar>x - of_int n\<bar> \<le> 1 / 2" by auto
  have mn: "m = n \<or> m = n - 1"
  proof -
    have "of_int m \<le> (of_int n :: rat) + 1 / 2" using m near by linarith
    then have "(of_int m :: rat) < of_int (n + 1)" by simp
    then have 1: "m < n + 1" by (simp only: of_int_less_iff)
    have "(of_int n :: rat) - 1 / 2 < of_int m + 1" using m near by linarith
    then have "(of_int (n - 1) :: rat) < of_int (m + 1)" by simp
    then have 2: "n - 1 < m + 1" by (simp only: of_int_less_iff)
    from 1 2 show ?thesis by auto
  qed
  have r: "round_half_even x =
     (if x - of_int m < 1 / 2 then m else if 1 / 2 < x - of_int m then m + 1
      else if even m then m else m + 1)"
    by (simp add: round_half_even_def Let_def m_def)
  from mn show ?thesis
  proof
    assume e: "m = n"
    then have "0 \<le> x - of_int n" using m by simp
    with assms e show ?thesis by (auto simp: r)
  next
    assume e: "m = n - 1"
    then have x: "x - of_int m = x - of_int n + 1" by simp
    have "x - of_int n < 0" using m e by simp
    with assms have "(- (x - of_int n) < 1 / 2) \<or> (- (x - of_int n) = 1 / 2 \<and> even n)"
      by auto
    then show ?thesis
    proof
      assume "- (x - of_int n) < 1 / 2"
      then have "1 / 2 < x - of_int m" using x by linarith
      then show ?thesis using e by (simp add: r)
    next
      assume a: "- (x - of_int n) = 1 / 2 \<and> even n"
      then have "x - of_int m = 1 / 2" using x by linarith
      moreover have "odd m" using a e by simp
      ultimately show ?thesis using e by (simp add: r)
    qed
  qed
qed

lemma to_double_pos:
  assumes "2 powi e \<le> x" and "x < 2 powi (e + 1)" and "- 1022 \<le> e"
    and "\<bar>x / 2 powi (e - 52) - of_int n\<bar> < 1 / 2
         \<or> (\<bar>x / 2 powi (e - 52) - of_int n\<bar> = 1 / 2 \<and> even n)"
    and "of_int n * 2 powi (e - 52) < (2::rat) powi 1024"
  shows "to_double x = Fin (of_int n * 2 powi (e - 52))"
    and "to_double (- x) = Fin (- (of_int n * 2 powi (e - 52)))"
proof -
  have "(0::rat) < 2 powi e" by simp
  then have pos: "0 < x" using assms(1) by linarith
  have e: "max (ilog2 x) (- 1022) = e"
    using ilog2_eqI[OF assms(1,2)] assms(3) by simp
  have r: "round_pos x = of_int n * 2 powi (e - 52)"
    using round_half_even_eqI[OF assms(4)] by (simp add: round_pos_def Let_def e)
  show "to_double x = Fin (of_int n * 2 powi (e - 52))"
    using pos assms(5) by (simp add: to_double_def Let_def r)
  show "to_double (- x) = Fin (- (of_int n * 2 powi (e - 52)))"
    using pos assms(5) by (simp add: to_double_def Let_def r)
qed

lemma pow2_le_cancel:
  assumes "2 powi a \<le> (2::rat) powi b"
  shows "a \<le> b"
proof (rule ccontr)
  assume "\<not> a \<le> b"
  then have "b < a" by simp
  then have "(2::rat) powi b < 2 powi a" by (intro power_int_strict_increasing) simp_all
  with assms show False by simp
qed

lemma round_half_even_bounds:
  shows "of_int a \<le> x \<Longrightarrow> a \<le> round_half_even x"
    and "x \<le> of_int b \<Longrightarrow> round_half_even x \<le> b"
proof -
  define m where "m = \<lfloor>x\<rfloor>"
  have r: "round_half_even x =
     (if x - of_int m < 1 / 2 then m else if 1 / 2 < x - of_int m then m + 1
      else if even m then m else m + 1)"
    by (simp add: round_half_even_def Let_def m_def)
  have m: "of_int m \<le> x" "x < of_int m + 1" unfolding m_def by linarith+
  show "a \<le> round_half_even x" if "of_int a \<le> x"
  proof -
    have "a \<le> m" using that by (simp add: m_def le_floor_iff)
    then show ?thesis by (simp add: r)
  qed
  show "round_half_even x \<le> b" if "x \<le> of_int b"
  proof (cases "x = of_int m")
    case True
    then have "(of_int m :: rat) \<le> of_int b" using that by simp
    then have "m \<le> b" by (simp only: of_int_le_iff)
    then show ?thesis using True by (simp add: r)
  next
    case False
    then have "(of_int m :: rat) < of_int b" using m that by linarith
    then have "m < b" by (simp only: of_int_less_iff)
    then show ?thesis by (simp add: r)
  qed
qed

lemma round_pos_exact:
  assumes "0 < x" and "x = of_int m * 2 powi k" and "m \<le> 2 ^ 53" and "- 1074 \<le> k"
  shows "round_pos x = x"
proof -
  define e where "e = max (ilog2 x) (- 1022)"
  define q where "q = (2::rat) powi (e - 52)"
  have qpos: "0 < q" by (simp add: q_def)
  note b = ilog2_bounds[OF assms(1)]
  have "\<exists>n. x / q = of_int n"
  proof (cases "e - 52 \<le> k")
    case True
    have "x / q = of_int m * (2 powi k / 2 powi (e - 52))" by (simp add: assms(2) q_def)
    also have "2 powi k / 2 powi (e - 52) = (2::rat) powi (k - (e - 52))"
      by (simp add: power_int_diff)
    also have "\<dots> = of_int (2 ^ nat (k - (e - 52)))" using True by (simp add: power_int_def)
    finally have "x / q = of_int (m * 2 ^ nat (k - (e - 52)))" by simp
    then show ?thesis ..
  next
    case False
    then have ek: "k + 52 < e" by simp
    with assms(4) have e0: "e = ilog2 x" by (auto simp: e_def max_def split: if_splits)
    have "(of_int m :: rat) \<le> of_int (2 ^ 53)" using assms(3) by (simp only: of_int_le_iff)
    then have "x \<le> 2 ^ 53 * 2 powi k"
      unfolding assms(2) by (intro mult_right_mono) simp_all
    also have "\<dots> = (2::rat) powi (k + 53)" by (simp add: power_int_add)
    finally have up: "x \<le> 2 powi (k + 53)" .
    have lo: "2 powi e \<le> x" using b e0 by simp
    from lo up have "(2::rat) powi e \<le> 2 powi (k + 53)" by linarith
    then have "e \<le> k + 53" by (rule pow2_le_cancel)
    with ek have e: "e = k + 53" by simp
    with lo up have x: "x = 2 powi (k + 53)" by simp
    have "x / q = (2::rat) powi (k + 53) / 2 powi (k + 1)" by (simp add: x q_def e add.commute)
    also have "\<dots> = (2::rat) powi ((k + 53) - (k + 1))"
      by (rule power_int_diff[symmetric]) simp
    also have "\<dots> = of_int (2 ^ 52)" by simp
    finally show ?thesis ..
  qed
  then obtain n where n: "x / q = of_int n" ..
  have "round_pos x = of_int (round_half_even (x / q)) * q"
    by (simp add: round_pos_def Let_def e_def q_def)
  also have "\<dots> = of_int n * q" by (simp add: n)
  also have "\<dots> = x" using n qpos by (simp add: field_simps)
  finally show ?thesis .
qed

lemma to_double_exact:
  assumes "x = of_int m * 2 powi k" and "\<bar>m\<bar> \<le> 2 ^ 53" and "- 1074 \<le> k"
    and "\<bar>x\<bar> < 2 powi 1024"
  shows "to_double x = Fin x"
proof -
  consider "x = 0" | "0 < x" | "x < 0" by linarith
  then show ?thesis
  proof cases
    case 1
    then show ?thesis by (simp add: to_double_def)
  next
    case 2
    have "m \<le> 2 ^ 53" using assms(2) by simp
    from round_pos_exact[OF 2 assms(1) this assms(3)] 2 assms(4)
    show ?thesis by (simp add: to_double_def Let_def)
  next
    case 3
    have m: "- m \<le> 2 ^ 53" using assms(2) by simp
    have x: "- x = of_int (- m) * 2 powi k" using assms(1) by simp
    have "0 < - x" using 3 by simp
    from round_pos_exact[OF this x m assms(3)] 3 assms(4)
    show ?thesis by (simp add: to_double_def Let_def)
  qed
qed

lemma to_double_of_int:
  assumes "\<bar>i\<bar> \<le> 2 ^ 53"
  shows "to_double (of_int i) = Fin (of_int i)"
proof -
  have "\<bar>of_int i :: rat\<bar> = of_int \<bar>i\<bar>" by simp
  also have "\<dots> \<le> of_int (2 ^ 53)" using assms by (simp only: of_int_le_iff)
  also have "\<dots> < 2 powi 1024" by simp
  finally have "\<bar>of_int i :: rat\<bar> < 2 powi 1024" .
  with assms show ?thesis by (intro to_double_exact[of _ i 0]) simp_all
qed

lemma round_pos_form:
  assumes "0 < x"
  shows "\<exists>n k. round_pos x = of_int n * 2 powi k \<and> 0 \<le> n \<and> n \<le> 2 ^ 53 \<and> - 1074 \<le> k"
proof -
  define e where "e = max (ilog2 x) (- 1022)"
  define q where "q = (2::rat) powi (e - 52)"
  define n where "n = round_half_even (x / q)"
  have qpos: "0 < q" by (simp add: q_def)
  note b = ilog2_bounds[OF assms]
  have "x < 2 powi (ilog2 x + 1)" using b by simp
  also have "\<dots> \<le> 2 powi (e + 1)" by (intro power_int_increasing) (simp_all add: e_def)
  also have "\<dots> = 2 ^ 53 * q" by (simp add: q_def power_int_add power_int_diff)
  finally have "x / q < 2 ^ 53" using qpos by (simp add: pos_divide_less_eq)
  then have "x / q \<le> of_int (2 ^ 53)" by simp
  then have n1: "n \<le> 2 ^ 53" unfolding n_def by (rule round_half_even_bounds(2))
  have "of_int 0 \<le> x / q" using assms qpos by simp
  then have n0: "0 \<le> n" unfolding n_def by (rule round_half_even_bounds(1))
  have "round_pos x = of_int n * 2 powi (e - 52)"
    by (simp add: round_pos_def Let_def e_def q_def n_def)
  moreover have "- 1074 \<le> e - 52" by (simp add: e_def)
  ultimately show ?thesis using n0 n1 by blast
qed

lemma to_double_idem:
  assumes "to_double x = Fin y"
  shows "to_double y = Fin y"
proof (cases "x = 0")
  case True
  with assms show ?thesis by (simp add: to_double_def)
next
  case False
  then have pos: "0 < \<bar>x\<bar>" by simp
  from round_pos_form[OF pos] obtain n k where
    r: "round_pos \<bar>x\<bar> = of_int n * 2 powi k" and n: "0 \<le> n" "n \<le> 2 ^ 53" and k: "- 1074 \<le> k"
    by blast
  from assms False have lt: "round_pos \<bar>x\<bar> < 2 powi 1024"
    and y: "y = (if 0 < x then round_pos \<bar>x\<bar> else - round_pos \<bar>x\<bar>)"
    by (auto simp: to_double_def Let_def split: if_splits)
  have nn: "0 \<le> round_pos \<bar>x\<bar>" using r n by simp
  show ?thesis
  proof (cases "0 < x")
    case True
    with y r have "y = of_int n * 2 powi k" by simp
    moreover have "\<bar>y\<bar> < 2 powi 1024" using y True lt nn by simp
    ultimately show ?thesis using n k by (intro to_double_exact[of y n k]) simp_all
  next
    case False
    with y r have "y = of_int (- n) * 2 powi k" by simp
    moreover have "\<bar>y\<bar> < 2 powi 1024" using y False lt nn by simp
    ultimately show ?thesis using n k by (intro to_double_exact[of y "- n" k]) simp_all
  qed
qed

subsection \<open>Sums and products\<close>

lemma to_double_0: "to_double 0 = Fin 0"
  by (simp add: to_double_def)

lemma float_of_int_0: "float_of_int 0 = Inr (Fin 0)"
  by (simp add: float_of_int_def to_double_0)

lemma float_of_int_small:
  assumes "\<bar>i\<bar> \<le> 2 ^ 53"
  shows "float_of_int i = Inr (Fin (of_int i))"
  by (simp add: float_of_int_def to_double_of_int[OF assms])

lemma python_ops_simps:
  "mul_other python_ops = mul_mixed"
  "sum_floats python_ops = sum_from (VInt 0)"
  "lt_floats python_ops = (\<lambda>a b. float_lt (num_val a) (num_val b))"
  "same_key_floats python_ops = same_number_key"
  by (simp_all add: python_ops_def)

lemma sum_from_ints:
  assumes "list_all (\<lambda>v. as_int v \<noteq> None) vs"
  shows "sum_from (VInt a) vs = Inr (VInt (a + sum_list (map int_of vs)))"
  using assms
proof (induction vs arbitrary: a)
  case Nil
  then show ?case by simp
next
  case (Cons v vs)
  then obtain j where j: "as_int v = Some j" by auto
  from Cons.prems have rest: "list_all (\<lambda>v. as_int v \<noteq> None) vs" by simp
  show ?case
    by (simp add: num_add_def j bind_err_def int_of_def Cons.IH[OF rest])
qed

lemma py_sum_python: "py_sum python_ops vs = sum_from (VInt 0) vs"
  by (simp add: py_sum_def python_ops_simps sum_from_ints)

lemma round_pos_le:
  assumes "0 < x" and "x \<le> 2 powi j" and "- 1022 \<le> j"
  shows "round_pos x \<le> 2 powi j"
proof -
  define e where "e = max (ilog2 x) (- 1022)"
  define q where "q = (2::rat) powi (e - 52)"
  have qpos: "0 < q" by (simp add: q_def)
  note b = ilog2_bounds[OF assms(1)]
  have "(2::rat) powi ilog2 x \<le> 2 powi j" using b assms(2) by linarith
  then have "ilog2 x \<le> j" by (rule pow2_le_cancel)
  then have ej: "e - 52 \<le> j" using assms(3) by (simp add: e_def)
  have "2 powi j / q = (2::rat) powi (j - (e - 52))"
    unfolding q_def by (rule power_int_diff[symmetric]) simp
  also have "\<dots> = of_int (2 ^ nat (j - (e - 52)))" using ej by (simp add: power_int_def)
  finally have jq: "2 powi j / q = of_int (2 ^ nat (j - (e - 52)))" .
  have "x / q \<le> 2 powi j / q" using assms(2) qpos by (simp add: divide_right_mono)
  then have "x / q \<le> of_int (2 ^ nat (j - (e - 52)))" by (simp only: jq)
  then have "round_half_even (x / q) \<le> 2 ^ nat (j - (e - 52))"
    by (rule round_half_even_bounds(2))
  then have "(of_int (round_half_even (x / q)) :: rat) \<le> of_int (2 ^ nat (j - (e - 52)))"
    by (simp only: of_int_le_iff)
  then have "of_int (round_half_even (x / q)) * q \<le> of_int (2 ^ nat (j - (e - 52))) * q"
    using qpos by (intro mult_right_mono) simp_all
  also have "\<dots> = 2 powi j" using jq qpos by (simp add: field_simps)
  finally show ?thesis by (simp add: round_pos_def Let_def e_def q_def)
qed

lemma float_of_int_defined:
  assumes "\<bar>i\<bar> \<le> 2 ^ 1023"
  shows "\<exists>y. float_of_int i = Inr y"
proof (cases "i = 0")
  case True
  then show ?thesis by (simp add: float_of_int_0)
next
  case False
  then have pos: "0 < \<bar>of_int i :: rat\<bar>" by simp
  have "\<bar>of_int i :: rat\<bar> = of_int \<bar>i\<bar>" by simp
  also have "\<dots> \<le> of_int (2 ^ 1023)" using assms by (simp only: of_int_le_iff)
  also have "\<dots> = 2 powi 1023" by simp
  finally have "\<bar>of_int i :: rat\<bar> \<le> 2 powi 1023" .
  from round_pos_le[OF pos this] have "round_pos \<bar>of_int i\<bar> \<le> 2 powi 1023" by simp
  also have "\<dots> < (2::rat) powi 1024" by (intro power_int_strict_increasing) simp_all
  finally have "\<not> 2 powi 1024 \<le> round_pos \<bar>of_int i\<bar>" by simp
  then show ?thesis using False by (simp add: float_of_int_def to_double_def Let_def)
qed

lemma float_of_int_error: "float_of_int i = Inl e \<Longrightarrow> e = OverflowError"
  by (auto simp: float_of_int_def split: pyfloat.splits)

lemma as_float_error:
  assumes "as_float v = Inl e" and "is_number v"
  shows "e = OverflowError"
  using assms by (cases v) (auto simp: as_float_def dest: float_of_int_error)

lemma as_float_defined:
  assumes "is_number v" and "\<bar>int_of v\<bar> \<le> 2 ^ 1023"
  shows "\<exists>y. as_float v = Inr y"
proof (cases v)
  case (VInt i)
  with assms(2) show ?thesis
    using float_of_int_defined[of i] by (simp add: as_float_def int_of_def)
next
  case (VBool b)
  then show ?thesis
    using float_of_int_defined[of "if b then 1 else 0"] by (simp add: as_float_def)
qed (use assms(1) in \<open>simp_all add: as_float_def\<close>)

lemma num_add_cases:
  assumes "is_number a" and "is_number b"
  shows "(\<exists>k. num_add a b = Inr (VInt k) \<and> \<bar>k\<bar> \<le> \<bar>int_of a\<bar> + \<bar>int_of b\<bar>)
       \<or> (\<exists>x. num_add a b = Inr (VFloat x))
       \<or> (num_add a b = Inl OverflowError
            \<and> (2 ^ 1023 < \<bar>int_of a\<bar> \<or> 2 ^ 1023 < \<bar>int_of b\<bar>))"
proof (cases "as_int a \<noteq> None \<and> as_int b \<noteq> None")
  case True
  then obtain i j where "as_int a = Some i" "as_int b = Some j" by auto
  then show ?thesis by (simp add: num_add_def int_of_def)
next
  case False
  then have n: "num_add a b =
      bind_err (as_float a) (\<lambda>x. bind_err (as_float b) (\<lambda>y. Inr (VFloat (fadd x y))))"
    by (auto simp: num_add_def split: option.splits)
  show ?thesis
  proof (cases "as_float a")
    case (Inl e)
    then have "e = OverflowError" using as_float_error assms(1) by blast
    moreover have "2 ^ 1023 < \<bar>int_of a\<bar>"
      using as_float_defined[OF assms(1)] Inl by fastforce
    ultimately show ?thesis using Inl by (simp add: n bind_err_def)
  next
    case a: (Inr x)
    show ?thesis
    proof (cases "as_float b")
      case (Inl e)
      then have "e = OverflowError" using as_float_error assms(2) by blast
      moreover have "2 ^ 1023 < \<bar>int_of b\<bar>"
        using as_float_defined[OF assms(2)] Inl by fastforce
      ultimately show ?thesis using Inl a by (simp add: n bind_err_def)
    next
      case (Inr y)
      with a show ?thesis by (simp add: n bind_err_def)
    qed
  qed
qed

lemma sum_from_error:
  assumes "sum_from acc vs = Inl e" and "is_number acc" and "list_all is_number vs"
  shows "e = OverflowError"
  using assms
proof (induction vs arbitrary: acc)
  case Nil
  then show ?case by simp
next
  case (Cons v vs)
  then have v: "is_number v" and rest: "list_all is_number vs" by simp_all
  from num_add_cases[OF Cons.prems(2) v] consider
      (int) k where "num_add acc v = Inr (VInt k)"
    | (float) x where "num_add acc v = Inr (VFloat x)"
    | (error) "num_add acc v = Inl OverflowError"
    by blast
  then show ?case
  proof cases
    case int
    with Cons.prems(1) have "sum_from (VInt k) vs = Inl e" by (simp add: bind_err_def)
    then show ?thesis using Cons.IH[of "VInt k"] rest by simp
  next
    case float
    with Cons.prems(1) have "sum_from (VFloat x) vs = Inl e" by (simp add: bind_err_def)
    then show ?thesis using Cons.IH[of "VFloat x"] rest by simp
  next
    case error
    with Cons.prems(1) show ?thesis by (simp add: bind_err_def)
  qed
qed

lemma sum_from_defined:
  assumes "is_number acc" and "list_all is_number vs"
    and "\<bar>int_of acc\<bar> + sum_list (map (\<lambda>v. \<bar>int_of v\<bar>) vs) \<le> 2 ^ 1023"
  shows "\<exists>w. sum_from acc vs = Inr w"
  using assms
proof (induction vs arbitrary: acc)
  case Nil
  then show ?case by simp
next
  case (Cons v vs)
  then have v: "is_number v" and rest: "list_all is_number vs" by simp_all
  have nn: "0 \<le> sum_list (map (\<lambda>v. \<bar>int_of v\<bar>) vs)" by (rule sum_list_nonneg) auto
  from Cons.prems(3) have b: "\<bar>int_of acc\<bar> + \<bar>int_of v\<bar> + sum_list (map (\<lambda>v. \<bar>int_of v\<bar>) vs) \<le> 2 ^ 1023"
    by simp
  from num_add_cases[OF Cons.prems(1) v] consider
      (int) k where "num_add acc v = Inr (VInt k)" "\<bar>k\<bar> \<le> \<bar>int_of acc\<bar> + \<bar>int_of v\<bar>"
    | (float) x where "num_add acc v = Inr (VFloat x)"
    | (error) "2 ^ 1023 < \<bar>int_of acc\<bar> \<or> 2 ^ 1023 < \<bar>int_of v\<bar>"
    by blast
  then show ?case
  proof cases
    case int
    then have "\<bar>int_of (VInt k :: pyfloat pyval)\<bar> + sum_list (map (\<lambda>v. \<bar>int_of v\<bar>) vs) \<le> 2 ^ 1023"
      using b by (simp add: int_of_def)
    from Cons.IH[OF _ rest this] int(1) show ?thesis by (simp add: bind_err_def)
  next
    case float
    have "\<bar>int_of (VFloat x :: pyfloat pyval)\<bar> + sum_list (map (\<lambda>v. \<bar>int_of v\<bar>) vs) \<le> 2 ^ 1023"
      using b nn by (simp add: int_of_def)
    from Cons.IH[OF _ rest this] float show ?thesis by (simp add: bind_err_def)
  next
    case error
    with b nn show ?thesis by linarith
  qed
qed

lemma fadd_examples:
  "fadd (Fin 0) (Fin (3602879701896397 / 36028797018963968)) = Fin (3602879701896397 / 36028797018963968)"
  "fadd (Fin 0) (Fin (3602879701896397 / 18014398509481984)) = Fin (3602879701896397 / 18014398509481984)"
  "fadd (Fin (3602879701896397 / 36028797018963968)) (Fin (3602879701896397 / 18014398509481984)) = Fin (1351079888211149 / 4503599627370496)"
  "fadd (Fin (1351079888211149 / 4503599627370496)) (Fin (1 / 2)) = Fin (3602879701896397 / 4503599627370496)"
  "fadd (Fin (3602879701896397 / 18014398509481984)) (Fin (1 / 2)) = Fin (3152519739159347 / 4503599627370496)"
  "fadd (Fin (3602879701896397 / 36028797018963968)) (Fin (3152519739159347 / 4503599627370496)) = Fin (7205759403792793 / 9007199254740992)"
  "fadd (Fin 18) (Fin (3602879701896397 / 18014398509481984)) = Fin (5122844576133939 / 281474976710656)"
  "fadd (Fin (5122844576133939 / 281474976710656)) (Fin (1 / 2)) = Fin (5263582064489267 / 281474976710656)"
proof -
  show "fadd (Fin 0) (Fin (3602879701896397 / 36028797018963968)) = Fin (3602879701896397 / 36028797018963968)"
    using to_double_pos(1)[of "- 4" "3602879701896397 / 36028797018963968" 7205759403792794] by simp
  show "fadd (Fin 0) (Fin (3602879701896397 / 18014398509481984)) = Fin (3602879701896397 / 18014398509481984)"
    using to_double_pos(1)[of "- 3" "3602879701896397 / 18014398509481984" 7205759403792794] by simp
  show "fadd (Fin (3602879701896397 / 36028797018963968)) (Fin (3602879701896397 / 18014398509481984)) = Fin (1351079888211149 / 4503599627370496)"
    using to_double_pos(1)[of "- 2" "3602879701896397 / 36028797018963968 + 3602879701896397 / 18014398509481984" 5404319552844596] by simp
  show "fadd (Fin (1351079888211149 / 4503599627370496)) (Fin (1 / 2)) = Fin (3602879701896397 / 4503599627370496)"
    using to_double_pos(1)[of "- 1" "1351079888211149 / 4503599627370496 + 1 / 2" 7205759403792794] by simp
  show "fadd (Fin (3602879701896397 / 18014398509481984)) (Fin (1 / 2)) = Fin (3152519739159347 / 4503599627370496)"
    using to_double_pos(1)[of "- 1" "3602879701896397 / 18014398509481984 + 1 / 2" 6305039478318694] by simp
  show "fadd (Fin (3602879701896397 / 36028797018963968)) (Fin (3152519739159347 / 4503599627370496)) = Fin (7205759403792793 / 9007199254740992)"
    using to_double_pos(1)[of "- 1" "3602879701896397 / 36028797018963968 + 3152519739159347 / 4503599627370496" 7205759403792793] by simp
  show "fadd (Fin 18) (Fin (3602879701896397 / 18014398509481984)) = Fin (5122844576133939 / 281474976710656)"
    using to_double_pos(1)[of "4" "18 + 3602879701896397 / 18014398509481984" 5122844576133939] by simp
  show "fadd (Fin (5122844576133939 / 281474976710656)) (Fin (1 / 2)) = Fin (5263582064489267 / 281474976710656)"
    using to_double_pos(1)[of "4" "5122844576133939 / 281474976710656 + 1 / 2" 5263582064489267] by simp
qed


lemma fmul_examples:
  "fmul (Fin 7) (Fin (3602879701896397 / 18014398509481984)) = Fin (6305039478318695 / 4503599627370496)"
  "fmul (Fin 7) (Fin (1 / 4)) = Fin (7 / 4)"
proof -
  show "fmul (Fin 7) (Fin (3602879701896397 / 18014398509481984)) = Fin (6305039478318695 / 4503599627370496)"
    using to_double_pos(1)[of "0" "7 * (3602879701896397 / 18014398509481984)" 6305039478318695] by simp
  show "fmul (Fin 7) (Fin (1 / 4)) = Fin (7 / 4)"
    using to_double_pos(1)[of "0" "7 * (1 / 4)" 7881299347898368] by simp
qed

lemma sum_examples:
  "sum_from (VInt 0) [VFloat (Fin (3602879701896397 / 36028797018963968))]
     = Inr (VFloat (Fin (3602879701896397 / 36028797018963968)))"
  "sum_from (VInt 0) [VFloat (Fin (3602879701896397 / 18014398509481984)), VFloat (Fin (1 / 2))]
     = Inr (VFloat (Fin (3152519739159347 / 4503599627370496)))"
  "sum_from (VInt 0) [VFloat (Fin (3602879701896397 / 36028797018963968)),
                      VFloat (Fin (3602879701896397 / 18014398509481984)), VFloat (Fin (1 / 2))]
     = Inr (VFloat (Fin (3602879701896397 / 4503599627370496)))"
  "sum_from (VInt 0) [VFloat (Fin (3602879701896397 / 36028797018963968)),
                      VFloat (Fin (3152519739159347 / 4503599627370496))]
     = Inr (VFloat (Fin (7205759403792793 / 9007199254740992)))"
  by (simp_all add: num_add_def as_float_def float_of_int_0 bind_err_def fadd_examples del: fadd.simps)

section \<open>Properties of the field deriver\<close>

lemma bind_err_simps [simp]:
  "bind_err (Inl e) k = Inl e"
  "bind_err (Inr x) k = k x"
  by (simp_all add: bind_err_def)

lemma py_mul_ints [simp]: "py_mul ops (VInt a) (VInt b) = Inr (VInt (a * b))"
  by (simp add: py_mul_def)

lemma set_product_Inr:
  assumes "set_product ops dst a b row = Inr row'"
  shows "(\<forall>k. k \<noteq> dst \<longrightarrow> row' k = row k)"
    and "row a = None \<or> row b = None \<Longrightarrow> row' = row"
    and "row a = Some x \<Longrightarrow> row b = Some y \<Longrightarrow> py_mul ops x y = Inr v \<Longrightarrow> row' dst = Some v"
    and "row a = Some x \<Longrightarrow> row b = Some y \<Longrightarrow> \<exists>v. py_mul ops x y = Inr v"
  using assms
  by (auto simp: set_product_def split: option.splits sum.splits)

lemma set_product_again:
  assumes "set_product ops dst a b row = Inr row'" and "dst \<noteq> a" and "dst \<noteq> b"
  shows "set_product ops dst a b row' = Inr row'"
  using assms
  by (auto simp: set_product_def split: option.splits sum.splits)

lemma set_product_fix_preserved:
  assumes "set_product ops d a b row = Inr row"
    and "set_product ops d2 a2 b2 row = Inr row'"
    and "d2 \<noteq> a" "d2 \<noteq> b" "d2 \<noteq> d"
  shows "set_product ops d a b row' = Inr row'"
proof -
  have same: "row' a = row a" "row' b = row b" "row' d = row d"
    using set_product_Inr(1)[OF assms(2)] assms(3-5) by auto
  show ?thesis
  proof (cases "row a")
    case None
    then show ?thesis using same by (simp add: set_product_def)
  next
    case (Some x)
    note a = this
    show ?thesis
    proof (cases "row b")
      case None
      then show ?thesis using same a by (simp add: set_product_def)
    next
      case (Some y)
      from assms(1) a Some obtain v where v: "py_mul ops x y = Inr v" and "row(d \<mapsto> v) = row"
        by (auto simp: set_product_def split: sum.splits)
      then have "row d = Some v" by (metis fun_upd_same)
      then have "row'(d \<mapsto> v) = row'" using same by (simp add: fun_upd_idem_iff)
      then show ?thesis using same a Some v by (simp add: set_product_def)
    qed
  qed
qed

lemma process_row_steps:
  assumes "process_row ops r = Inr r'"
  obtains r1 r2 where
    "set_product ops ''TOTAL'' ''QTY/CTN'' ''CTNS'' r = Inr r1"
    "set_product ops ''TOTAL NW'' ''CTNS'' ''NW'' r1 = Inr r2"
    "set_product ops ''TOTAL GW'' ''CTNS'' ''GW'' r2 = Inr r'"
  using assms by (auto simp: process_row_def bind_err_def split: sum.splits)

lemma process_row_fixpoint:
  assumes "process_row ops r = Inr r'"
  shows "process_row ops r' = Inr r'"
proof -
  from assms obtain r1 r2 where
    s1: "set_product ops ''TOTAL'' ''QTY/CTN'' ''CTNS'' r = Inr r1" and
    s2: "set_product ops ''TOTAL NW'' ''CTNS'' ''NW'' r1 = Inr r2" and
    s3: "set_product ops ''TOTAL GW'' ''CTNS'' ''GW'' r2 = Inr r'"
    by (rule process_row_steps)
  have f1: "set_product ops ''TOTAL'' ''QTY/CTN'' ''CTNS'' r1 = Inr r1"
    using set_product_again[OF s1] by simp
  have f1': "set_product ops ''TOTAL'' ''QTY/CTN'' ''CTNS'' r2 = Inr r2"
    using set_product_fix_preserved[OF f1 s2] by simp
  have g1: "set_product ops ''TOTAL'' ''QTY/CTN'' ''CTNS'' r' = Inr r'"
    using set_product_fix_preserved[OF f1' s3] by simp
  have f2: "set_product ops ''TOTAL NW'' ''CTNS'' ''NW'' r2 = Inr r2"
    using set_product_again[OF s2] by simp
  have g2: "set_product ops ''TOTAL NW'' ''CTNS'' ''NW'' r' = Inr r'"
    using set_product_fix_preserved[OF f2 s3] by simp
  have g3: "set_product ops ''TOTAL GW'' ''CTNS'' ''GW'' r' = Inr r'"
    using set_product_again[OF s3] by simp
  show ?thesis by (simp add: process_row_def g1 g2 g3)
qed

text \<open>On sources that are integers the loop body raises nothing.\<close>

lemma set_product_returns:
  assumes "\<And>x. row a = Some x \<Longrightarrow> as_int x \<noteq> None"
    and "\<And>y. row b = Some y \<Longrightarrow> as_int y \<noteq> None"
  shows "\<exists>row'. set_product ops dst a b row = Inr row'"
proof (cases "row a")
  case None
  then show ?thesis by (simp add: set_product_def)
next
  case (Some x)
  note a = this
  show ?thesis
  proof (cases "row b")
    case None
    then show ?thesis using a by (simp add: set_product_def)
  next
    case (Some y)
    from assms(1)[OF a] assms(2)[OF Some] obtain i j where "as_int x = Some i" "as_int y = Some j"
      by auto
    then show ?thesis using a Some by (simp add: set_product_def py_mul_def)
  qed
qed

lemma process_row_returns:
  assumes "\<forall>k\<in>{''QTY/CTN'', ''CTNS'', ''NW'', ''GW''}. \<forall>v. r k = Some v \<longrightarrow> as_int v \<noteq> None"
  shows "\<exists>r'. process_row ops r = Inr r'"
proof -
  obtain r1 where s1: "set_product ops ''TOTAL'' ''QTY/CTN'' ''CTNS'' r = Inr r1"
    using set_product_returns[of r "''QTY/CTN''" "''CTNS''" ops "''TOTAL''"] assms by auto
  have k1: "r1 k = r k" if "k \<noteq> ''TOTAL''" for k
    using set_product_Inr(1)[OF s1] that by simp
  obtain r2 where s2: "set_product ops ''TOTAL NW'' ''CTNS'' ''NW'' r1 = Inr r2"
    using set_product_returns[of r1 "''CTNS''" "''NW''" ops "''TOTAL NW''"] assms by (auto simp: k1)
  have k2: "r2 k = r1 k" if "k \<noteq> ''TOTAL NW''" for k
    using set_product_Inr(1)[OF s2] that by simp
  obtain r3 where s3: "set_product ops ''TOTAL GW'' ''CTNS'' ''GW'' r2 = Inr r3"
    using set_product_returns[of r2 "''CTNS''" "''GW''" ops "''TOTAL GW''"] assms
    by (auto simp: k1 k2)
  show ?thesis by (simp add: process_row_def s1 s2 s3)
qed

lemma process_data_fixpoint:
  "process_data ops rs = Inr rs' \<Longrightarrow> process_data ops rs' = Inr rs'"
proof (induction rs arbitrary: rs')
  case Nil
  then show ?case by simp
next
  case (Cons r rs)
  then show ?case
    by (auto simp: bind_err_def process_row_fixpoint split: sum.splits)
qed

lemma row_full_eval:
  "process_row python_ops row_full =
     Inr (row_full(''TOTAL'' \<mapsto> VInt 500, ''TOTAL NW'' \<mapsto> VInt 20, ''TOTAL GW'' \<mapsto> VInt 30))"
  by (simp add: row_full_def process_row_def set_product_def)

lemma row_partial_eval: "process_row python_ops row_partial = Inr row_partial"
  by (simp add: row_partial_def process_row_def set_product_def)

lemma row_full_at:
  "row_full ''QTY/CTN'' = Some (VInt 50)" "row_full ''CTNS'' = Some (VInt 10)"
  "row_full ''NW'' = Some (VInt 2)" "row_full ''GW'' = Some (VInt 3)"
  "row_full ''TOTAL'' = None" "row_full ''ITEM'' = Some (VStr ''CABLE'')"
  by (simp_all add: row_full_def)

lemma row_partial_at:
  "row_partial ''QTY/CTN'' = Some (VInt 10)" "row_partial ''CTNS'' = None"
  "row_partial ''TOTAL'' = None" "row_partial ''ITEM'' = None"
  by (simp_all add: row_partial_def)

lemma process_row_fields:
  assumes "process_row ops r = Inr r'"
  shows "r ''QTY/CTN'' = Some q \<Longrightarrow> r ''CTNS'' = Some c \<Longrightarrow>
           \<exists>v. py_mul ops q c = Inr v \<and> r' ''TOTAL'' = Some v"
    and "r ''QTY/CTN'' = None \<or> r ''CTNS'' = None \<Longrightarrow> r' ''TOTAL'' = r ''TOTAL''"
    and "r ''CTNS'' = Some c \<Longrightarrow> r ''NW'' = Some n \<Longrightarrow>
           \<exists>v. py_mul ops c n = Inr v \<and> r' ''TOTAL NW'' = Some v"
    and "r ''CTNS'' = None \<or> r ''NW'' = None \<Longrightarrow> r' ''TOTAL NW'' = r ''TOTAL NW''"
    and "r ''CTNS'' = Some c \<Longrightarrow> r ''GW'' = Some g \<Longrightarrow>
           \<exists>v. py_mul ops c g = Inr v \<and> r' ''TOTAL GW'' = Some v"
    and "r ''CTNS'' = None \<or> r ''GW'' = None \<Longrightarrow> r' ''TOTAL GW'' = r ''TOTAL GW''"
    and "k \<noteq> ''TOTAL'' \<and> k \<noteq> ''TOTAL NW'' \<and> k \<noteq> ''TOTAL GW'' \<Longrightarrow> r' k = r k"
proof -
  from assms obtain r1 r2 where
    s1: "set_product ops ''TOTAL'' ''QTY/CTN'' ''CTNS'' r = Inr r1" and
    s2: "set_product ops ''TOTAL NW'' ''CTNS'' ''NW'' r1 = Inr r2" and
    s3: "set_product ops ''TOTAL GW'' ''CTNS'' ''GW'' r2 = Inr r'"
    by (rule process_row_steps)
  note k1 = set_product_Inr(1)[OF s1] and k2 = set_product_Inr(1)[OF s2]
    and k3 = set_product_Inr(1)[OF s3]
  have src1: "r1 ''CTNS'' = r ''CTNS''" "r1 ''NW'' = r ''NW''" "r1 ''GW'' = r ''GW''"
    using k1 by simp_all
  have src2: "r2 ''CTNS'' = r ''CTNS''" "r2 ''GW'' = r ''GW''"
    using k1 k2 by simp_all
  have t: "r' ''TOTAL'' = r1 ''TOTAL''" using k2 k3 by simp
  have tn: "r' ''TOTAL NW'' = r2 ''TOTAL NW''" "r1 ''TOTAL NW'' = r ''TOTAL NW''"
    using k1 k3 by simp_all
  have tg: "r2 ''TOTAL GW'' = r ''TOTAL GW''" using k1 k2 by simp
  show "\<exists>v. py_mul ops q c = Inr v \<and> r' ''TOTAL'' = Some v"
    if "r ''QTY/CTN'' = Some q" "r ''CTNS'' = Some c"
    using set_product_Inr(3,4)[OF s1 that] t by auto
  show "r' ''TOTAL'' = r ''TOTAL''" if "r ''QTY/CTN'' = None \<or> r ''CTNS'' = None"
    using set_product_Inr(2)[OF s1 that] t by simp
  show "\<exists>v. py_mul ops c n = Inr v \<and> r' ''TOTAL NW'' = Some v"
    if "r ''CTNS'' = Some c" "r ''NW'' = Some n"
    using set_product_Inr(3,4)[OF s2, of c n] that src1 tn by auto
  show "r' ''TOTAL NW'' = r ''TOTAL NW''" if "r ''CTNS'' = None \<or> r ''NW'' = None"
    using set_product_Inr(2)[OF s2] that src1 tn by auto
  show "\<exists>v. py_mul ops c g = Inr v \<and> r' ''TOTAL GW'' = Some v"
    if "r ''CTNS'' = Some c" "r ''GW'' = Some g"
    using set_product_Inr(3,4)[OF s3, of c g] that src2 by auto
  show "r' ''TOTAL GW'' = r ''TOTAL GW''" if "r ''CTNS'' = None \<or> r ''GW'' = None"
    using set_product_Inr(2)[OF s3] that src2 tg by auto
  show "r' k = r k" if "k \<noteq> ''TOTAL'' \<and> k \<noteq> ''TOTAL NW'' \<and> k \<noteq> ''TOTAL GW''"
    using k1 k2 k3 that by simp
qed

lemma real_value_as_float:
  assumes "real_value v = Some p"
  shows "is_number v \<and> as_float v = Inr (Fin p)"
proof (cases v)
  case (VFloat x)
  with assms show ?thesis by (cases x) (simp_all add: real_value_def as_float_def)
next
  case (VInt i)
  with assms have "\<bar>i\<bar> \<le> 2 ^ 53" "p = of_int i"
    by (auto simp: real_value_def split: if_splits)
  then show ?thesis using VInt by (simp add: as_float_def float_of_int_small)
next
  case (VBool b)
  with assms have p: "p = of_int (if b then 1 else 0)"
    by (auto simp: real_value_def split: if_splits)
  have "float_of_int (if b then 1 else 0) = Inr (Fin (of_int (if b then 1 else 0)))"
    by (rule float_of_int_small) simp
  then show ?thesis using VBool p by (simp add: as_float_def)
qed (use assms in \<open>simp_all add: real_value_def\<close>)

lemma real_product_py_mul:
  assumes "real_product x y = Some w"
  shows "py_mul python_ops x y = Inr w"
proof (cases "as_int x \<noteq> None \<and> as_int y \<noteq> None")
  case True
  then obtain i j where "as_int x = Some i" "as_int y = Some j" by auto
  with assms show ?thesis by (simp add: real_product_def py_mul_def)
next
  case False
  with assms obtain p q where p: "real_value x = Some p" and q: "real_value y = Some q"
    and w: "w = VFloat (to_double (p * q))"
    by (auto simp: real_product_def split: option.splits)
  have "py_mul python_ops x y = mul_mixed x y"
    using False by (auto simp: py_mul_def python_ops_simps split: option.splits)
  also have "\<dots> = Inr (VFloat (fmul (Fin p) (Fin q)))"
    using real_value_as_float[OF p] real_value_as_float[OF q] by (simp add: mul_mixed_def)
  finally show ?thesis by (simp add: w)
qed

lemma derivedI:
  assumes "\<And>x y. r a = Some x \<Longrightarrow> r b = Some y \<Longrightarrow>
              \<exists>v. py_mul python_ops x y = Inr v \<and> r' dst = Some v"
    and "r a = None \<or> r b = None \<Longrightarrow> r' dst = r dst"
  shows "derived dst a b r r'"
proof (cases "r a")
  case None
  then show ?thesis using assms(2) by (simp add: derived_def)
next
  case a: (Some x)
  show ?thesis
  proof (cases "r b")
    case None
    then show ?thesis using assms(2) a by (simp add: derived_def)
  next
    case b: (Some y)
    from assms(1)[OF a b] obtain v where v: "py_mul python_ops x y = Inr v" "r' dst = Some v"
      by blast
    have "v = w" if "real_product x y = Some w" for w
      using real_product_py_mul[OF that] v(1) by simp
    then show ?thesis using a b v by (simp add: derived_def split: option.splits)
  qed
qed

lemma process_data_rows:
  "process_data ops rows = Inr rows' \<Longrightarrow>
     list_all2 (\<lambda>r r'. process_row ops r = Inr r') rows rows'"
proof (induction rows arbitrary: rows')
  case Nil
  then show ?case by simp
next
  case (Cons r rows)
  from Cons.prems obtain r' rest where "process_row ops r = Inr r'"
    "process_data ops rows = Inr rest" "rows' = r' # rest"
    by (auto simp: bind_err_def split: sum.splits)
  with Cons.IH[of rest] show ?case by simp
qed

text \<open>
  Claim C2. When \<^verbatim>\<open>process_data\<close> returns, every row it returns holds, for each of the
  three formulas, the product of the two source fields exactly when both are present in
  the input row (\<open>TOTAL = QTY/CTN * CTNS\<close>, \<open>TOTAL NW = CTNS * NW\<close>,
  \<open>TOTAL GW = CTNS * GW\<close>, overwriting what was there); when a source field is absent
  the destination field is left as it was in the input, neither set nor zero-filled.
  The product of two integers is their exact product, and a product with a float is the
  product of the two real numbers, rounded to a float. Every other field is unchanged.
\<close>

theorem process_data_derived_fields:
  assumes "process_data python_ops rows = Inr rows'"
  shows "list_all2
           (\<lambda>r r'. derived ''TOTAL'' ''QTY/CTN'' ''CTNS'' r r'
                  \<and> derived ''TOTAL NW'' ''CTNS'' ''NW'' r r'
                  \<and> derived ''TOTAL GW'' ''CTNS'' ''GW'' r r'
                  \<and> (\<forall>k. k \<noteq> ''TOTAL'' \<and> k \<noteq> ''TOTAL NW'' \<and> k \<noteq> ''TOTAL GW'' \<longrightarrow> r' k = r k))
           rows rows'"
proof (rule list_all2_mono[OF process_data_rows[OF assms]])
  fix r r' :: "pyfloat row"
  assume "process_row python_ops r = Inr r'"
  note f = process_row_fields[OF this]
  have 1: "derived ''TOTAL'' ''QTY/CTN'' ''CTNS'' r r'"
  proof (rule derivedI)
    fix x y assume "r ''QTY/CTN'' = Some x" "r ''CTNS'' = Some y"
    then show "\<exists>v. py_mul python_ops x y = Inr v \<and> r' ''TOTAL'' = Some v" by (rule f(1))
  next
    assume "r ''QTY/CTN'' = None \<or> r ''CTNS'' = None"
    then show "r' ''TOTAL'' = r ''TOTAL''" by (rule f(2))
  qed
  have 2: "derived ''TOTAL NW'' ''CTNS'' ''NW'' r r'"
  proof (rule derivedI)
    fix x y assume "r ''CTNS'' = Some x" "r ''NW'' = Some y"
    then show "\<exists>v. py_mul python_ops x y = Inr v \<and> r' ''TOTAL NW'' = Some v" by (rule f(3))
  next
    assume "r ''CTNS'' = None \<or> r ''NW'' = None"
    then show "r' ''TOTAL NW'' = r ''TOTAL NW''" by (rule f(4))
  qed
  have 3: "derived ''TOTAL GW'' ''CTNS'' ''GW'' r r'"
  proof (rule derivedI)
    fix x y assume "r ''CTNS'' = Some x" "r ''GW'' = Some y"
    then show "\<exists>v. py_mul python_ops x y = Inr v \<and> r' ''TOTAL GW'' = Some v" by (rule f(5))
  next
    assume "r ''CTNS'' = None \<or> r ''GW'' = None"
    then show "r' ''TOTAL GW'' = r ''TOTAL GW''" by (rule f(6))
  qed
  have 4: "\<forall>k. k \<noteq> ''TOTAL'' \<and> k \<noteq> ''TOTAL NW'' \<and> k \<noteq> ''TOTAL GW'' \<longrightarrow> r' k = r k"
    using f(7) by blast
  from 1 2 3 4
  show "derived ''TOTAL'' ''QTY/CTN'' ''CTNS'' r r'
      \<and> derived ''TOTAL NW'' ''CTNS'' ''NW'' r r'
      \<and> derived ''TOTAL GW'' ''CTNS'' ''GW'' r r'
      \<and> (\<forall>k. k \<noteq> ''TOTAL'' \<and> k \<noteq> ''TOTAL NW'' \<and> k \<noteq> ''TOTAL GW'' \<longrightarrow> r' k = r k)"
    by blast
qed

lemma row_usb_at:
  "row_usb ''QTY/CTN'' = Some (VInt 100)" "row_usb ''CTNS'' = Some (VInt 7)"
  "row_usb ''NW'' = Some (VFloat (Fin (3602879701896397 / 18014398509481984)))"
  "row_usb ''GW'' = Some (VFloat (Fin (1 / 4)))"
  "row_usb ''TOTAL'' = None" "row_usb ''TOTAL NW'' = None" "row_usb ''TOTAL GW'' = None"
  by (simp_all add: row_usb_def)

lemma usb_products:
  "py_mul python_ops (VInt 7) (VFloat (Fin (3602879701896397 / 18014398509481984)))
     = Inr (VFloat (Fin (6305039478318695 / 4503599627370496)))"
  "py_mul python_ops (VInt 7) (VFloat (Fin (1 / 4))) = Inr (VFloat (Fin (7 / 4)))"
  "real_product (VInt 100) (VInt 7) = Some (VInt 700)"
  "real_product (VInt 7) (VFloat (Fin (3602879701896397 / 18014398509481984)))
     = Some (VFloat (Fin (6305039478318695 / 4503599627370496)))"
  "real_product (VInt 7) (VFloat (Fin (1 / 4))) = Some (VFloat (Fin (7 / 4)))"
proof -
  have f: "float_of_int 7 = Inr (Fin 7)" using float_of_int_small[of 7] by simp
  show "py_mul python_ops (VInt 7) (VFloat (Fin (3602879701896397 / 18014398509481984)))
     = Inr (VFloat (Fin (6305039478318695 / 4503599627370496)))"
    by (simp add: py_mul_def python_ops_simps mul_mixed_def as_float_def f fmul_examples
        del: fmul.simps)
  show "py_mul python_ops (VInt 7) (VFloat (Fin (1 / 4))) = Inr (VFloat (Fin (7 / 4)))"
    by (simp add: py_mul_def python_ops_simps mul_mixed_def as_float_def f fmul_examples
        del: fmul.simps)
  show "real_product (VInt 100) (VInt 7) = Some (VInt 700)"
    by (simp add: real_product_def)
  have r: "real_product (VInt 7) (VFloat (Fin d)) = Some (VFloat (fmul (Fin 7) (Fin d)))" for d
    by (simp add: real_product_def real_value_def)
  show "real_product (VInt 7) (VFloat (Fin (3602879701896397 / 18014398509481984)))
     = Some (VFloat (Fin (6305039478318695 / 4503599627370496)))"
    by (simp only: r fmul_examples)
  show "real_product (VInt 7) (VFloat (Fin (1 / 4))) = Some (VFloat (Fin (7 / 4)))"
    by (simp only: r fmul_examples)
qed

lemma usb_eval:
  "process_data python_ops [row_usb, row_partial] =
     Inr [row_usb(''TOTAL'' \<mapsto> VInt 700,
                  ''TOTAL NW'' \<mapsto> VFloat (Fin (6305039478318695 / 4503599627370496)),
                  ''TOTAL GW'' \<mapsto> VFloat (Fin (7 / 4))),
          row_partial]"
proof -
  have "process_row python_ops row_usb =
     Inr (row_usb(''TOTAL'' \<mapsto> VInt 700,
                  ''TOTAL NW'' \<mapsto> VFloat (Fin (6305039478318695 / 4503599627370496)),
                  ''TOTAL GW'' \<mapsto> VFloat (Fin (7 / 4))))"
    by (simp add: process_row_def set_product_def row_usb_at usb_products)
  then show ?thesis by (simp add: row_partial_eval)
qed

text \<open>
  The row \<open>{QTY/CTN: 100, CTNS: 7, NW: 0.2, GW: 0.25}\<close> gets \<open>TOTAL = 700\<close>,
  \<open>TOTAL NW = 1.4000000000000001\<close>, the float nearest to the product of 7 and the
  float \<open>0.2\<close>, and \<open>TOTAL GW = 1.75\<close>; the row \<open>{QTY/CTN: 10}\<close> gets no \<open>TOTAL\<close>.
\<close>

theorem process_data_derived_fields_witness:
  "process_data python_ops [row_usb, row_partial] =
     Inr [row_usb(''TOTAL'' \<mapsto> VInt 700,
                  ''TOTAL NW'' \<mapsto> VFloat (Fin (6305039478318695 / 4503599627370496)),
                  ''TOTAL GW'' \<mapsto> VFloat (Fin (7 / 4))),
          row_partial]
   \<and> derived ''TOTAL NW'' ''CTNS'' ''NW'' row_usb
        (row_usb(''TOTAL'' \<mapsto> VInt 700,
                 ''TOTAL NW'' \<mapsto> VFloat (Fin (6305039478318695 / 4503599627370496)),
                 ''TOTAL GW'' \<mapsto> VFloat (Fin (7 / 4))))
   \<and> real_product (VInt 100) (VInt 7) = Some (VInt 700)
   \<and> real_product (VInt 7) (VFloat (Fin (3602879701896397 / 18014398509481984)))
       = Some (VFloat (Fin (6305039478318695 / 4503599627370496)))
   \<and> real_product (VInt 7) (VFloat (Fin (1 / 4))) = Some (VFloat (Fin (7 / 4)))
   \<and> derived ''TOTAL'' ''QTY/CTN'' ''CTNS'' row_partial row_partial
   \<and> row_partial ''CTNS'' = None \<and> row_partial ''TOTAL'' = None"
proof -
  from process_data_derived_fields[OF usb_eval]
  have d: "derived ''TOTAL NW'' ''CTNS'' ''NW'' row_usb
             (row_usb(''TOTAL'' \<mapsto> VInt 700,
                      ''TOTAL NW'' \<mapsto> VFloat (Fin (6305039478318695 / 4503599627370496)),
                      ''TOTAL GW'' \<mapsto> VFloat (Fin (7 / 4))))"
    "derived ''TOTAL'' ''QTY/CTN'' ''CTNS'' row_partial row_partial"
    by simp_all
  show ?thesis
    by (intro conjI) (rule usb_eval d usb_products row_partial_at)+
qed

text \<open>
  Claim C8. Deriving twice is deriving once: running the loop body again on the row it
  returned returns that row again, and when the first run raises the whole raises the
  same error. The same holds for \<^verbatim>\<open>process_data\<close> on a list of rows.
\<close>

theorem process_row_idempotent:
  "bind_err (process_row ops r) (process_row ops) = process_row ops r
   \<and> bind_err (process_data ops rs) (process_data ops) = process_data ops rs"
proof
  show "bind_err (process_row ops r) (process_row ops) = process_row ops r"
    by (cases "process_row ops r") (simp_all add: process_row_fixpoint)
  show "bind_err (process_data ops rs) (process_data ops) = process_data ops rs"
    by (cases "process_data ops rs") (simp_all add: process_data_fixpoint)
qed

theorem process_row_idempotent_witness:
  "bind_err (process_row python_ops row_full) (process_row python_ops) =
     Inr (row_full(''TOTAL'' \<mapsto> VInt 500, ''TOTAL NW'' \<mapsto> VInt 20, ''TOTAL GW'' \<mapsto> VInt 30))"
  using process_row_idempotent[of python_ops row_full "[]"]
  by (simp add: row_full_eval)

section \<open>Properties of the aggregator\<close>

subsection \<open>Sorting\<close>

lemma sort_item_str: "item_is_str r \<Longrightarrow> sort_item r = VStr (item_text r)"
  by (cases "r ''ITEM''"; cases "the (r ''ITEM'')")
     (auto simp: item_is_str_def item_text_def sort_item_def)

lemma mset_insort_py: "insort_py ops x ys = Inr zs \<Longrightarrow> mset zs = add_mset x (mset ys)"
proof (induction ys arbitrary: zs)
  case Nil
  then show ?case by auto
next
  case (Cons y ys)
  then show ?case
    by (auto simp: bind_err_def split: sum.splits if_splits)
qed

lemma mset_sorted_py: "sorted_py ops xs = Inr ys \<Longrightarrow> mset ys = mset xs"
proof (induction xs arbitrary: ys)
  case Nil
  then show ?case by simp
next
  case (Cons x xs)
  then show ?case
    by (auto simp: bind_err_def mset_insort_py split: sum.splits)
qed

lemma insort_py_str:
  assumes "item_is_str x" "\<forall>y\<in>set ys. item_is_str y"
  shows "insort_py ops x ys = Inr (insort_key item_text x ys)"
  using assms
proof (induction ys)
  case Nil
  then show ?case by simp
next
  case (Cons y ys)
  then show ?case by (auto simp: sort_item_str)
qed

lemma sorted_py_str:
  assumes "\<forall>x\<in>set xs. item_is_str x"
  shows "sorted_py ops xs = Inr (sort_key item_text xs)"
  using assms
proof (induction xs)
  case Nil
  then show ?case by simp
next
  case (Cons x xs)
  then show ?case by (simp add: insort_py_str)
qed

lemma sort_and_subtotal_data:
  assumes "sort_and_subtotal ops rows = Inr res"
  shows "sorted_py ops rows = Inr (data res)"
  using assms by (auto simp: sort_and_subtotal_def bind_err_def split: sum.splits)

subsection \<open>Sums of a field\<close>

lemma any_has_simps:
  "any_has f [] = False"
  "any_has f (r # rs) = (r f \<noteq> None \<or> any_has f rs)"
  by (auto simp: any_has_def)

lemma summands_simps:
  "summands f [] = []"
  "summands f (r # rs) = (case summand f r of None \<Rightarrow> summands f rs | Some v \<Rightarrow> v # summands f rs)"
  by (simp_all add: summands_def List.map_filter_simps split: option.splits)

lemma sum_fields_result:
  assumes "sum_fields ops fs rows acc = Inr t"
  shows "(f \<notin> set fs \<or> \<not> any_has f rows \<longrightarrow> t f = acc f)
       \<and> (f \<in> set fs \<and> any_has f rows \<longrightarrow> (\<exists>v. t f = Some v \<and> py_sum ops (summands f rows) = Inr v))"
  using assms
proof (induction fs arbitrary: acc)
  case Nil
  then show ?case by simp
next
  case (Cons g fs)
  show ?case
  proof (cases "any_has g rows")
    case False
    with Cons.prems have "sum_fields ops fs rows acc = Inr t" by simp
    from Cons.IH[OF this] False show ?thesis by auto
  next
    case True
    with Cons.prems obtain v where v: "py_sum ops (summands g rows) = Inr v"
      and rest: "sum_fields ops fs rows (acc(g \<mapsto> v)) = Inr t"
      by (auto simp: bind_err_def split: sum.splits)
    from Cons.IH[OF rest] True v show ?thesis by (cases "f = g") auto
  qed
qed

lemma totals_result:
  assumes "totals ops rows = Inr t"
  shows "(t f \<noteq> None) = (f \<in> set numeric_fields \<and> any_has f rows)"
    and "f \<in> set numeric_fields \<Longrightarrow> any_has f rows \<Longrightarrow>
           \<exists>v. t f = Some v \<and> py_sum ops (summands f rows) = Inr v"
  using sum_fields_result[OF assms[unfolded totals_def], of f] by auto

lemma sum_fields_defined:
  assumes "\<forall>f\<in>set fs. any_has f rows \<longrightarrow> (\<exists>v. py_sum ops (summands f rows) = Inr v)"
  shows "\<exists>t. sum_fields ops fs rows acc = Inr t"
  using assms
proof (induction fs arbitrary: acc)
  case Nil
  then show ?case by simp
next
  case (Cons g fs)
  show ?case
  proof (cases "any_has g rows")
    case True
    with Cons.prems obtain v where "py_sum ops (summands g rows) = Inr v" by auto
    with Cons True show ?thesis by auto
  next
    case False
    with Cons show ?thesis by auto
  qed
qed

lemma sum_defined_iff:
  "sum_defined ops f rs = (any_has f rs \<longrightarrow> (\<exists>v. py_sum ops (summands f rs) = Inr v))"
  by (simp add: sum_defined_def split: sum.splits)

lemma totals_defined_iff:
  "(\<exists>t. totals ops rs = Inr t) = (\<forall>f\<in>set numeric_fields. sum_defined ops f rs)"
proof
  assume "\<exists>t. totals ops rs = Inr t"
  then obtain t where t: "totals ops rs = Inr t" ..
  show "\<forall>f\<in>set numeric_fields. sum_defined ops f rs"
    using totals_result(2)[OF t] by (auto simp: sum_defined_iff)
next
  assume "\<forall>f\<in>set numeric_fields. sum_defined ops f rs"
  then show "\<exists>t. totals ops rs = Inr t"
    unfolding totals_def by (intro sum_fields_defined) (simp add: sum_defined_iff)
qed

lemma summand_no_float:
  assumes "case row f of None \<Rightarrow> True | Some v \<Rightarrow> \<not> is_float v"
  shows "(case summand f row of None \<Rightarrow> field_int f row = 0
          | Some v \<Rightarrow> as_int v \<noteq> None \<and> int_of v = field_int f row)"
proof (cases "row f")
  case None
  then show ?thesis by (simp add: summand_def field_int_def)
next
  case (Some v)
  with assms show ?thesis
    by (cases v) (auto simp: summand_def field_int_def int_of_def)
qed

lemma summands_no_float:
  assumes "no_float_at f rows"
  shows "list_all (\<lambda>v. as_int v \<noteq> None) (summands f rows)
       \<and> sum_list (map int_of (summands f rows)) = sum_list (map (field_int f) rows)"
  using assms
proof (induction rows)
  case Nil
  then show ?case by (simp add: summands_def List.map_filter_simps)
next
  case (Cons r rows)
  then have r: "case r f of None \<Rightarrow> True | Some v \<Rightarrow> \<not> is_float v"
    and rest: "no_float_at f rows"
    by (simp_all add: no_float_at_def)
  from summand_no_float[of r f, OF r] Cons.IH[OF rest] show ?case
    by (cases "summand f r") (simp_all add: summands_def List.map_filter_simps)
qed

lemma py_sum_no_float:
  assumes "no_float_at f rows"
  shows "py_sum ops (summands f rows) = Inr (VInt (sum_list (map (field_int f) rows)))"
  using summands_no_float[OF assms] by (simp add: py_sum_def)

lemma totals_no_float:
  assumes "totals ops rows = Inr t" and "no_float_at f rows"
  shows "t f = (if f \<in> set numeric_fields \<and> any_has f rows
                then Some (VInt (sum_list (map (field_int f) rows))) else None)"
proof (cases "f \<in> set numeric_fields \<and> any_has f rows")
  case True
  then show ?thesis
    using totals_result(2)[OF assms(1), of f] py_sum_no_float[OF assms(2), of ops] by auto
next
  case False
  then show ?thesis using totals_result(1)[OF assms(1), of f] by auto
qed

subsection \<open>Groups and the report\<close>

lemma group_rows_snoc:
  "group_rows ops (xs @ [x]) = append_row ops (group_item x) x (group_rows ops xs)"
  by (simp add: group_rows_def)

lemma mset_append_row:
  "mset (concat (map snd (append_row ops k r g))) = add_mset r (mset (concat (map snd g)))"
  by (induction g) auto

lemma mset_group_rows: "mset (concat (map snd (group_rows ops rows))) = mset rows"
proof (induction rows rule: rev_induct)
  case Nil
  then show ?case by (simp add: group_rows_def)
next
  case (snoc x xs)
  then show ?case by (simp add: group_rows_snoc mset_append_row)
qed

lemma subtotal_items_result:
  "subtotal_items ops g = Inr ss \<Longrightarrow>
     list_all2 (\<lambda>(k, rs) (k', s). k' = k \<and> totals ops rs = Inr s) g ss"
proof (induction g arbitrary: ss)
  case Nil
  then show ?case by simp
next
  case (Cons a g)
  obtain k rs where a: "a = (k, rs)" by (cases a)
  from Cons.prems obtain s rest where "totals ops rs = Inr s"
    "subtotal_items ops g = Inr rest" "ss = (k, s) # rest"
    by (auto simp: a bind_err_def split: sum.splits)
  with Cons.IH[of rest] show ?case by (simp add: a)
qed

lemma sort_and_subtotal_parts:
  assumes "sort_and_subtotal ops rows = Inr res"
  shows "sorted_py ops rows = Inr (data res)"
    and "subtotal_items ops (group_rows ops (data res)) = Inr (subtotals res)"
    and "totals ops (data res) = Inr (grand_total res)"
  using assms by (auto simp: sort_and_subtotal_def bind_err_def split: sum.splits)

lemma subtotal_items_defined_iff:
  "(\<exists>ss. subtotal_items ops g = Inr ss) = (\<forall>a\<in>set g. \<exists>s. totals ops (snd a) = Inr s)"
proof (induction g)
  case Nil
  then show ?case by simp
next
  case (Cons a g)
  obtain k rs where a: "a = (k, rs)" by (cases a)
  show ?case
  proof (cases "totals ops rs")
    case (Inl e)
    then show ?thesis by (simp add: a bind_err_def)
  next
    case (Inr s)
    show ?thesis
    proof (cases "subtotal_items ops g")
      case (Inl e)
      with Cons Inr show ?thesis by (auto simp: a bind_err_def)
    next
      case r: (Inr rest)
      with Cons Inr show ?thesis by (auto simp: a bind_err_def)
    qed
  qed
qed

lemma set_group_rows: "(\<Union>a\<in>set (group_rows ops rows). set (snd a)) = set rows"
proof -
  have "set_mset (mset (concat (map snd (group_rows ops rows)))) = set rows"
    by (simp only: mset_group_rows set_mset_mset)
  then show ?thesis by auto
qed

lemma sort_and_subtotal_defined_iff:
  assumes "sorted_py ops rows = Inr d"
  shows "(\<exists>res. sort_and_subtotal ops rows = Inr res) = sums_defined ops rows"
proof -
  have l: "summed_lists ops rows = map snd (group_rows ops d) @ [d]"
    by (simp add: summed_lists_def assms)
  have sd: "sums_defined ops rows =
     ((\<forall>a\<in>set (group_rows ops d). \<exists>s. totals ops (snd a) = Inr s) \<and> (\<exists>t. totals ops d = Inr t))"
    by (auto simp: sums_defined_def l list_all_iff totals_defined_iff)
  show ?thesis
  proof
    assume "\<exists>res. sort_and_subtotal ops rows = Inr res"
    then obtain res where res: "sort_and_subtotal ops rows = Inr res" ..
    from sort_and_subtotal_parts[OF res] assms have dd: "data res = d"
      and ss: "\<exists>ss. subtotal_items ops (group_rows ops d) = Inr ss"
      and tt: "\<exists>t. totals ops d = Inr t"
      by auto
    from ss tt show "sums_defined ops rows"
      by (simp add: sd subtotal_items_defined_iff)
  next
    assume "sums_defined ops rows"
    then obtain ss t where "subtotal_items ops (group_rows ops d) = Inr ss" "totals ops d = Inr t"
      using subtotal_items_defined_iff[of ops "group_rows ops d"] by (auto simp: sd)
    then show "\<exists>res. sort_and_subtotal ops rows = Inr res"
      by (simp add: sort_and_subtotal_def assms)
  qed
qed

lemma example_eval:
  "sort_and_subtotal ops [row_Bx, row_Ay, row_Bz] =
     Inr \<lparr> data = [row_Ay, row_Bx, row_Bz],
           subtotals = [(VStr ''A'', Map.empty), (VStr ''B'', Map.empty)],
           grand_total = Map.empty \<rparr>"
proof -
  have k: "sort_item row_Bx = VStr ''B''" "sort_item row_Ay = VStr ''A''" "sort_item row_Bz = VStr ''B''"
    "group_item row_Bx = VStr ''B''" "group_item row_Ay = VStr ''A''" "group_item row_Bz = VStr ''B''"
    by (simp_all add: sort_item_def group_item_def row_Bx_def row_Ay_def row_Bz_def)
  have s: "sorted_py ops [row_Bx, row_Ay, row_Bz] = Inr [row_Ay, row_Bx, row_Bz]"
    by (simp add: k)
  have g: "group_rows ops [row_Ay, row_Bx, row_Bz] = [(VStr ''A'', [row_Ay]), (VStr ''B'', [row_Bx, row_Bz])]"
    by (simp add: group_rows_def k)
  have n: "\<not> any_has f [row_Ay]" "\<not> any_has f [row_Bx, row_Bz]" "\<not> any_has f [row_Ay, row_Bx, row_Bz]"
    if "f \<in> set numeric_fields" for f
    using that by (auto simp: any_has_def numeric_fields_def row_Bx_def row_Ay_def row_Bz_def)
  have t: "totals ops [row_Ay] = Inr Map.empty" "totals ops [row_Bx, row_Bz] = Inr Map.empty"
    "totals ops [row_Ay, row_Bx, row_Bz] = Inr Map.empty"
    by (simp_all add: totals_def numeric_fields_def n)
  show ?thesis
    by (simp only: sort_and_subtotal_def s bind_err_simps g subtotal_items.simps t)
qed


text \<open>
  Claim C7. Aggregating the empty list raises nothing: the report has no data row, no
  group and no subtotal, and its grand total is the empty dictionary, with no numeric
  field at all.
\<close>

theorem sort_and_subtotal_empty:
  "sort_and_subtotal ops [] = Inr \<lparr> data = [], subtotals = [], grand_total = Map.empty \<rparr>"
  by (simp add: sort_and_subtotal_def group_rows_def totals_def numeric_fields_def any_has_def)

theorem sort_and_subtotal_empty_witness:
  "sort_and_subtotal python_ops [] = Inr \<lparr> data = [], subtotals = [], grand_total = Map.empty \<rparr>
   \<and> dom (Map.empty :: pyfloat row) = {}"
  using sort_and_subtotal_empty[of python_ops] by simp

text \<open>
  Claim C10. The data rows of the report are a permutation of the input records: the
  multiset of rows is unchanged by the sort, and the groups split the same multiset, so
  no row is made up, dropped or doubled.
\<close>

theorem sort_and_subtotal_permutation:
  assumes "sort_and_subtotal ops rows = Inr res"
  shows "mset (data res) = mset rows
       \<and> mset (concat (map snd (group_rows ops (data res)))) = mset rows"
  using mset_sorted_py[OF sort_and_subtotal_parts(1)[OF assms]]
  by (simp add: mset_group_rows)

theorem sort_and_subtotal_permutation_witness:
  "sort_and_subtotal python_ops [row_Bx, row_Ay, row_Bz] =
     Inr \<lparr> data = [row_Ay, row_Bx, row_Bz],
           subtotals = [(VStr ''A'', Map.empty), (VStr ''B'', Map.empty)],
           grand_total = Map.empty \<rparr>
   \<and> mset [row_Ay, row_Bx, row_Bz :: pyfloat row] = mset [row_Bx, row_Ay, row_Bz]"
  using sort_and_subtotal_permutation[OF example_eval[of python_ops]]
  by (simp add: example_eval)

text \<open>
  Claim C9. The aggregation can raise: with one record whose \<open>ITEM\<close> is the string
  \<open>A\<close> and one whose \<open>ITEM\<close> is the integer 1, the sort compares \<^verbatim>\<open>1 < 'A'\<close> and
  raises \<^verbatim>\<open>TypeError\<close>.
\<close>

theorem sort_and_subtotal_raises:
  "sort_and_subtotal python_ops [row_item_A, row_item_1] = Inl TypeError"
  by (simp add: sort_and_subtotal_def sort_item_def row_item_A_def row_item_1_def)





subsection \<open>Subtotals and the grand total\<close>

lemma field_int_absent:
  assumes "\<not> any_has f rs"
  shows "sum_list (map (field_int f) rs) = 0"
proof -
  have "\<forall>r\<in>set rs. field_int f r = 0"
    using assms by (auto simp: any_has_def field_int_def)
  then show ?thesis by (induction rs) auto
qed

lemma list_all2_right:
  "list_all2 R xs ys \<Longrightarrow> y \<in> set ys \<Longrightarrow> \<exists>x\<in>set xs. R x y"
  by (induction rule: list_all2_induct) auto

lemma list_all2_left:
  "list_all2 R xs ys \<Longrightarrow> x \<in> set xs \<Longrightarrow> \<exists>y\<in>set ys. R x y"
  by (induction rule: list_all2_induct) auto

lemma list_all2_member:
  "list_all2 R xs ys \<Longrightarrow> list_all2 (\<lambda>x y. x \<in> set xs \<and> R x y) xs ys"
  by (induction rule: list_all2_induct) (auto elim: list_all2_mono)

lemma no_float_at_subset:
  assumes "no_float_at f rows" and "set rs \<subseteq> set rows"
  shows "no_float_at f rs"
  using assms by (auto simp: no_float_at_def list_all_iff)

lemma sum_list_map_mset:
  fixes h :: "'a \<Rightarrow> int"
  assumes "mset xs = mset ys"
  shows "sum_list (map h xs) = sum_list (map h ys)"
proof -
  have "sum_list (map h xs) = sum_mset (image_mset h (mset xs))"
    by (metis mset_map sum_mset_sum_list)
  also have "\<dots> = sum_mset (image_mset h (mset ys))" by (simp add: assms)
  also have "\<dots> = sum_list (map h ys)" by (metis mset_map sum_mset_sum_list)
  finally show ?thesis .
qed

lemma sum_list_all2:
  fixes h :: "'a \<Rightarrow> int"
  assumes "list_all2 R xs ys" and "\<And>x y. R x y \<Longrightarrow> h x = h' y"
  shows "sum_list (map h xs) = sum_list (map h' ys)"
  using assms by (induction rule: list_all2_induct) auto

lemma sum_list_groups:
  fixes h :: "'a \<Rightarrow> int"
  shows "sum_list (map (\<lambda>a. sum_list (map h (snd a))) g) = sum_list (map h (concat (map snd g)))"
  by (induction g) auto

lemma totals_int:
  assumes "totals ops rs = Inr s" and "no_float_at f rs" and "f \<in> set numeric_fields"
  shows "field_int f s = sum_list (map (field_int f) rs)"
proof (cases "any_has f rs")
  case True
  then show ?thesis
    using totals_no_float[OF assms(1,2)] assms(3) by (simp add: field_int_def int_of_def)
next
  case False
  then show ?thesis
    using totals_no_float[OF assms(1,2)] field_int_absent[OF False] by (simp add: field_int_def)
qed

lemma any_has_groups:
  "(\<exists>a\<in>set (group_rows ops rows). any_has f (snd a)) = any_has f rows"
proof -
  have "any_has f rows = (\<exists>r\<in>(\<Union>a\<in>set (group_rows ops rows). set (snd a)). r f \<noteq> None)"
    by (simp only: set_group_rows any_has_def)
  then show ?thesis by (auto simp: any_has_def)
qed

lemma groups_subtotals:
  assumes "sort_and_subtotal ops rows = Inr res"
  shows "list_all2 (\<lambda>a b. fst b = fst a \<and> totals ops (snd a) = Inr (snd b))
           (group_rows ops (data res)) (subtotals res)"
  using subtotal_items_result[OF sort_and_subtotal_parts(2)[OF assms]]
  by (rule list_all2_mono) auto

lemma data_set:
  assumes "sort_and_subtotal ops rows = Inr res"
  shows "set (data res) = set rows"
  using mset_sorted_py[OF sort_and_subtotal_parts(1)[OF assms]] by (metis set_mset_mset)

lemma fifth_keys:
  "sort_item row_tenth = VStr ''A''" "sort_item row_fifth = VStr ''B''"
  "sort_item row_half = VStr ''B''"
  "group_item row_tenth = VStr ''A''" "group_item row_fifth = VStr ''B''"
  "group_item row_half = VStr ''B''"
  by (simp_all add: sort_item_def group_item_def row_tenth_def row_fifth_def row_half_def)

lemma fifth_totals:
  "totals python_ops [row_tenth] = Inr [''NW'' \<mapsto> VFloat (Fin (3602879701896397 / 36028797018963968))]"
  "totals python_ops [row_fifth, row_half] =
     Inr [''NW'' \<mapsto> VFloat (Fin (3152519739159347 / 4503599627370496))]"
  "totals python_ops [row_tenth, row_fifth, row_half] =
     Inr [''NW'' \<mapsto> VFloat (Fin (3602879701896397 / 4503599627370496))]"
  by (simp_all add: totals_def numeric_fields_def any_has_simps summands_simps summand_def
      py_sum_python sum_examples row_tenth_def row_fifth_def row_half_def
      del: sum_from.simps)

lemma fifth_groups:
  "group_rows python_ops [row_tenth, row_fifth, row_half] =
     [(VStr ''A'', [row_tenth]), (VStr ''B'', [row_fifth, row_half])]"
  by (simp add: group_rows_def fifth_keys)

lemma fifth_eval:
  "sort_and_subtotal python_ops [row_tenth, row_fifth, row_half] =
     Inr \<lparr> data = [row_tenth, row_fifth, row_half],
           subtotals =
             [(VStr ''A'', [''NW'' \<mapsto> VFloat (Fin (3602879701896397 / 36028797018963968))]),
              (VStr ''B'', [''NW'' \<mapsto> VFloat (Fin (3152519739159347 / 4503599627370496))])],
           grand_total = [''NW'' \<mapsto> VFloat (Fin (3602879701896397 / 4503599627370496))] \<rparr>"
proof -
  have s: "sorted_py python_ops [row_tenth, row_fifth, row_half] =
             Inr [row_tenth, row_fifth, row_half]"
    by (simp add: fifth_keys)
  show ?thesis
    by (simp only: sort_and_subtotal_def s bind_err_simps fifth_groups subtotal_items.simps
        fifth_totals)
qed

text \<open>
  Claim C3. The grand total is not always the sum of the subtotals. Take a record of
  group \<open>A\<close> with \<open>NW = 0.1\<close> and two records of group \<open>B\<close> with \<open>NW = 0.2\<close> and
  \<open>NW = 0.5\<close>. The subtotals of \<open>NW\<close> are \<open>0.1\<close> and \<open>0.2 + 0.5 = 0.7\<close>, and their sum, as
  Python takes it, is \<open>0.7999999999999999\<close>, that is $7205759403792793 / 2^{53}$. The
  grand total is \<open>(0.1 + 0.2) + 0.5 = 0.8\<close>, that is $7205759403792794 / 2^{53}$: each
  addition of two floats rounds, and the two sums add in different orders. The grand
  total is not the sum of the two subtotals as real numbers either.
\<close>

theorem grand_total_not_sum_of_subtotals:
  "sort_and_subtotal python_ops [row_tenth, row_fifth, row_half] =
     Inr \<lparr> data = [row_tenth, row_fifth, row_half],
           subtotals =
             [(VStr ''A'', [''NW'' \<mapsto> VFloat (Fin (3602879701896397 / 36028797018963968))]),
              (VStr ''B'', [''NW'' \<mapsto> VFloat (Fin (3152519739159347 / 4503599627370496))])],
           grand_total = [''NW'' \<mapsto> VFloat (Fin (3602879701896397 / 4503599627370496))] \<rparr>
   \<and> sum_from (VInt 0) [VFloat (Fin (3602879701896397 / 36028797018963968)),
                        VFloat (Fin (3152519739159347 / 4503599627370496))]
       = Inr (VFloat (Fin (7205759403792793 / 9007199254740992)))
   \<and> (3602879701896397 / 4503599627370496 :: rat) \<noteq> 7205759403792793 / 9007199254740992
   \<and> (3602879701896397 / 4503599627370496 :: rat)
       \<noteq> 3602879701896397 / 36028797018963968 + 3152519739159347 / 4503599627370496"
  by (simp add: fifth_eval sum_examples del: sum_from.simps)

text \<open>
  Claim C3, amended. A field is in the grand-total row exactly when it is in the subtotal
  row of some group. For a field that holds no float in any record, the grand total is the
  sum of the subtotals: the grand-total row holds the sum of the field over all subtotal
  rows, a subtotal row without the field counting for 0.
\<close>

theorem grand_total_is_sum_of_subtotals:
  assumes "sort_and_subtotal ops rows = Inr res"
  shows "((grand_total res f \<noteq> None) = (\<exists>a\<in>set (subtotals res). snd a f \<noteq> None))
       \<and> (no_float_at f rows \<and> (\<exists>a\<in>set (subtotals res). snd a f \<noteq> None) \<longrightarrow>
            grand_total res f =
              Some (VInt (sum_list (map (\<lambda>a. field_int f (snd a)) (subtotals res)))))"
proof -
  let ?g = "group_rows ops (data res)" and ?ss = "subtotals res"
  note R = groups_subtotals[OF assms(1)]
  note T = sort_and_subtotal_parts(3)[OF assms(1)]
  have pres: "(\<exists>b\<in>set ?ss. snd b f \<noteq> None) = (f \<in> set numeric_fields \<and> any_has f (data res))"
  proof -
    have "(\<exists>b\<in>set ?ss. snd b f \<noteq> None) = (\<exists>a\<in>set ?g. f \<in> set numeric_fields \<and> any_has f (snd a))"
    proof
      assume "\<exists>b\<in>set ?ss. snd b f \<noteq> None"
      then obtain b where b: "b \<in> set ?ss" "snd b f \<noteq> None" by blast
      then obtain a where "a \<in> set ?g" "totals ops (snd a) = Inr (snd b)"
        using list_all2_right[OF R] by blast
      then show "\<exists>a\<in>set ?g. f \<in> set numeric_fields \<and> any_has f (snd a)"
        using totals_result(1)[of ops "snd a" "snd b" f] b by auto
    next
      assume "\<exists>a\<in>set ?g. f \<in> set numeric_fields \<and> any_has f (snd a)"
      then obtain a where a: "a \<in> set ?g" "f \<in> set numeric_fields" "any_has f (snd a)" by blast
      then obtain b where "b \<in> set ?ss" "totals ops (snd a) = Inr (snd b)"
        using list_all2_left[OF R] by blast
      then show "\<exists>b\<in>set ?ss. snd b f \<noteq> None"
        using totals_result(1)[of ops "snd a" "snd b" f] a by auto
    qed
    then show ?thesis using any_has_groups[of ops "data res" f] by auto
  qed
  have present: "(grand_total res f \<noteq> None) = (\<exists>a\<in>set ?ss. snd a f \<noteq> None)"
    using totals_result(1)[OF T, of f] pres by simp
  have eq: "grand_total res f = Some (VInt (sum_list (map (\<lambda>a. field_int f (snd a)) ?ss)))"
    if nfr: "no_float_at f rows" and ex: "\<exists>a\<in>set ?ss. snd a f \<noteq> None"
  proof -
    have nf: "no_float_at f (data res)"
      using nfr data_set[OF assms(1)] by (auto intro: no_float_at_subset)
    have nfg: "no_float_at f (snd a)" if "a \<in> set ?g" for a
      using set_group_rows[of ops "data res"] that by (intro no_float_at_subset[OF nf]) blast
    have gt: "grand_total res f = (if f \<in> set numeric_fields \<and> any_has f (data res)
                then Some (VInt (sum_list (map (field_int f) (data res)))) else None)"
      by (rule totals_no_float[OF T nf])
    have f: "f \<in> set numeric_fields" using ex pres by simp
    have R': "list_all2 (\<lambda>a b. a \<in> set ?g \<and> totals ops (snd a) = Inr (snd b)) ?g ?ss"
      using list_all2_member[OF R] by (rule list_all2_mono) simp
    have "sum_list (map (\<lambda>a. sum_list (map (field_int f) (snd a))) ?g)
            = sum_list (map (\<lambda>b. field_int f (snd b)) ?ss)"
    proof (rule sum_list_all2[OF R'])
      fix a b
      assume "a \<in> set ?g \<and> totals ops (snd a) = Inr (snd b)"
      then show "sum_list (map (field_int f) (snd a)) = field_int f (snd b)"
        using totals_int[of ops "snd a" "snd b" f] nfg[of a] f by simp
    qed
    then have sums: "sum_list (map (\<lambda>b. field_int f (snd b)) ?ss)
                       = sum_list (map (field_int f) (data res))"
      by (simp add: sum_list_groups sum_list_map_mset[OF mset_group_rows])
    show ?thesis using gt pres ex sums by simp
  qed
  show ?thesis using present eq by blast
qed




lemma cable_keys:
  "sort_item row_c1 = VStr ''CABLE''" "sort_item row_c2 = VStr ''CABLE''"
  "sort_item row_p = VStr ''POWER''"
  "group_item row_c1 = VStr ''CABLE''" "group_item row_c2 = VStr ''CABLE''"
  "group_item row_p = VStr ''POWER''"
  by (simp_all add: sort_item_def group_item_def row_c1_def row_c2_def row_p_def)

lemma cable_totals:
  "totals ops [row_c1, row_c2] =
     Inr [''CTNS'' \<mapsto> VInt 17, ''TOTAL'' \<mapsto> VInt 1200, ''GW'' \<mapsto> VInt 20]"
  "totals ops [row_p] = Inr [''CTNS'' \<mapsto> VInt 3, ''GW'' \<mapsto> VInt 0]"
  "totals ops [row_c1, row_c2, row_p] =
     Inr [''CTNS'' \<mapsto> VInt 20, ''TOTAL'' \<mapsto> VInt 1200, ''GW'' \<mapsto> VInt 20]"
  by (simp_all add: totals_def numeric_fields_def any_has_simps summands_simps summand_def
      py_sum_def int_of_def row_c1_def row_c2_def row_p_def)

lemma cable_eval:
  "sort_and_subtotal ops [row_p, row_c1, row_c2] =
     Inr \<lparr> data = [row_c1, row_c2, row_p],
           subtotals =
             [(VStr ''CABLE'', [''CTNS'' \<mapsto> VInt 17, ''TOTAL'' \<mapsto> VInt 1200, ''GW'' \<mapsto> VInt 20]),
              (VStr ''POWER'', [''CTNS'' \<mapsto> VInt 3, ''GW'' \<mapsto> VInt 0])],
           grand_total = [''CTNS'' \<mapsto> VInt 20, ''TOTAL'' \<mapsto> VInt 1200, ''GW'' \<mapsto> VInt 20] \<rparr>"
proof -
  have s: "sorted_py ops [row_p, row_c1, row_c2] = Inr [row_c1, row_c2, row_p]"
    by (simp add: cable_keys)
  have g: "group_rows ops [row_c1, row_c2, row_p] =
             [(VStr ''CABLE'', [row_c1, row_c2]), (VStr ''POWER'', [row_p])]"
    by (simp add: group_rows_def cable_keys)
  show ?thesis
    by (simp only: sort_and_subtotal_def s bind_err_simps g subtotal_items.simps cable_totals)
qed



lemma cable_no_float:
  "no_float_at f [row_p, row_c1, row_c2 :: 'f row]" "no_float_at f [row_c1, row_c2 :: 'f row]"
  "no_float_at f [row_p :: 'f row]"
  by (auto simp: no_float_at_def row_c1_def row_c2_def row_p_def)


text \<open>
  On the records \<open>POWER\<close>, \<open>CABLE\<close>, \<open>CABLE\<close>, which hold integers only, the grand total
  of \<open>TOTAL\<close> is $1200 = 1200 + 0$; \<open>NW\<close> is in no subtotal row and not in the
  grand-total row.
\<close>

theorem grand_total_is_sum_of_subtotals_witness:
  "sort_and_subtotal python_ops [row_p, row_c1, row_c2] =
     Inr \<lparr> data = [row_c1, row_c2, row_p],
           subtotals =
             [(VStr ''CABLE'', [''CTNS'' \<mapsto> VInt 17, ''TOTAL'' \<mapsto> VInt 1200, ''GW'' \<mapsto> VInt 20]),
              (VStr ''POWER'', [''CTNS'' \<mapsto> VInt 3, ''GW'' \<mapsto> VInt 0])],
           grand_total = [''CTNS'' \<mapsto> VInt 20, ''TOTAL'' \<mapsto> VInt 1200, ''GW'' \<mapsto> VInt 20] \<rparr>
   \<and> no_float_at ''TOTAL'' [row_p, row_c1, row_c2 :: pyfloat row]
   \<and> field_int ''TOTAL'' [''CTNS'' \<mapsto> VInt 17, ''TOTAL'' \<mapsto> VInt 1200, ''GW'' \<mapsto> VInt 20 :: pyfloat pyval]
       + field_int ''TOTAL'' [''CTNS'' \<mapsto> VInt 3, ''GW'' \<mapsto> VInt 0 :: pyfloat pyval] = 1200"
proof -
  note t = grand_total_is_sum_of_subtotals[OF cable_eval[of python_ops], of "''TOTAL''"]
  have a: "field_int ''TOTAL'' [''CTNS'' \<mapsto> VInt 17, ''TOTAL'' \<mapsto> VInt 1200, ''GW'' \<mapsto> VInt 20 :: pyfloat pyval]
       + field_int ''TOTAL'' [''CTNS'' \<mapsto> VInt 3, ''GW'' \<mapsto> VInt 0 :: pyfloat pyval] = 1200"
    by (simp add: field_int_def int_of_def)
  show ?thesis
    using t a by (simp add: cable_eval cable_no_float)
qed

subsection \<open>Sums that raise\<close>

lemma summands_numbers: "list_all is_number (summands f rs)"
  by (induction rs) (auto simp: summands_simps summand_def split: option.splits if_splits)

lemma summands_abs:
  "sum_list (map (\<lambda>v. \<bar>int_of v\<bar>) (summands f rs)) = sum_list (map (\<lambda>r. \<bar>field_int f r\<bar>) rs)"
proof (induction rs)
  case Nil
  then show ?case by (simp add: summands_simps)
next
  case (Cons r rs)
  show ?case
  proof (cases "r f")
    case None
    then show ?thesis using Cons by (simp add: summands_simps summand_def field_int_def)
  next
    case (Some v)
    then show ?thesis using Cons
      by (cases v) (simp_all add: summands_simps summand_def field_int_def int_of_def)
  qed
qed

lemma py_sum_python_error:
  assumes "py_sum python_ops (summands f rs) = Inl e"
  shows "e = OverflowError"
  using assms sum_from_error[of "VInt 0" "summands f rs" e] summands_numbers[of f rs]
  by (simp add: py_sum_python)

lemma py_sum_python_defined:
  assumes "sum_list (map (\<lambda>r. \<bar>field_int f r\<bar>) rs) \<le> 2 ^ 1023"
  shows "\<exists>v. py_sum python_ops (summands f rs) = Inr v"
proof -
  have z: "int_of (VInt 0 :: pyfloat pyval) = 0" by (simp add: int_of_def)
  have "\<bar>int_of (VInt 0 :: pyfloat pyval)\<bar> + sum_list (map (\<lambda>v. \<bar>int_of v\<bar>) (summands f rs)) \<le> 2 ^ 1023"
    unfolding summands_abs z using assms by simp
  from sum_from_defined[OF _ summands_numbers this] show ?thesis by (simp add: py_sum_python)
qed

lemma sum_fields_error:
  assumes "sum_fields python_ops fs rs acc = Inl e"
  shows "e = OverflowError"
  using assms
proof (induction fs arbitrary: acc)
  case Nil
  then show ?case by simp
next
  case (Cons g fs)
  show ?case
  proof (cases "any_has g rs")
    case False
    with Cons show ?thesis by simp
  next
    case True
    show ?thesis
    proof (cases "py_sum python_ops (summands g rs)")
      case (Inl e')
      with Cons.prems True have "e' = e" by (simp add: bind_err_def)
      with Inl show ?thesis using py_sum_python_error by blast
    next
      case (Inr v)
      with Cons.prems True have "sum_fields python_ops fs rs (acc(g \<mapsto> v)) = Inl e"
        by (simp add: bind_err_def)
      then show ?thesis by (rule Cons.IH)
    qed
  qed
qed

lemma subtotal_items_error:
  assumes "subtotal_items python_ops g = Inl e"
  shows "e = OverflowError"
  using assms
proof (induction g)
  case Nil
  then show ?case by simp
next
  case (Cons a g)
  obtain k rs where a: "a = (k, rs)" by (cases a)
  show ?case
  proof (cases "totals python_ops rs")
    case (Inl e')
    with Cons.prems have "e' = e" by (simp add: a bind_err_def)
    with Inl show ?thesis using sum_fields_error[of numeric_fields rs Map.empty e']
      by (simp add: totals_def)
  next
    case (Inr s)
    with Cons.prems obtain "subtotal_items python_ops g = Inl e"
      by (cases "subtotal_items python_ops g") (simp_all add: a bind_err_def)
    then show ?thesis by (rule Cons.IH)
  qed
qed

lemma sort_and_subtotal_error:
  assumes "sorted_py python_ops rows = Inr d" and "sort_and_subtotal python_ops rows = Inl e"
  shows "e = OverflowError"
proof (cases "subtotal_items python_ops (group_rows python_ops d)")
  case (Inl e')
  with assms have "e' = e" by (simp add: sort_and_subtotal_def bind_err_def)
  with Inl show ?thesis using subtotal_items_error by blast
next
  case (Inr ss)
  with assms have "totals python_ops d = Inl e"
    by (cases "totals python_ops d") (simp_all add: sort_and_subtotal_def bind_err_def)
  then show ?thesis using sum_fields_error[of numeric_fields d Map.empty e]
    by (simp add: totals_def)
qed

lemma sum_list_member_le:
  fixes h :: "'a \<Rightarrow> int"
  assumes "a \<in> set g" and "\<And>x. 0 \<le> h x"
  shows "sum_list (map h (snd a)) \<le> sum_list (map h (concat (map snd g)))"
  using assms(1)
proof (induction g)
  case Nil
  then show ?case by simp
next
  case (Cons b g)
  have 1: "0 \<le> sum_list (map h (snd b))" by (rule sum_list_nonneg) (auto simp: assms(2))
  have 2: "0 \<le> sum_list (map h (concat (map snd g)))"
    by (rule sum_list_nonneg) (auto simp: assms(2))
  from Cons show ?case
  proof (cases "a = b")
    case True
    then show ?thesis using 2 by simp
  next
    case False
    with Cons have "sum_list (map h (snd a)) \<le> sum_list (map h (concat (map snd g)))" by simp
    then show ?thesis using 1 by simp
  qed
qed

lemma sums_defined_bounded:
  assumes "sorted_py python_ops rows = Inr d"
    and "\<forall>f\<in>set numeric_fields. sum_list (map (\<lambda>r. \<bar>field_int f r\<bar>) rows) \<le> 2 ^ 1023"
  shows "sums_defined python_ops rows"
proof -
  have l: "summed_lists python_ops rows = map snd (group_rows python_ops d) @ [d]"
    by (simp add: summed_lists_def assms(1))
  have d: "sum_list (map (\<lambda>r. \<bar>field_int f r\<bar>) d) = sum_list (map (\<lambda>r. \<bar>field_int f r\<bar>) rows)" for f
    by (rule sum_list_map_mset[OF mset_sorted_py[OF assms(1)]])
  have g: "sum_list (map (\<lambda>r. \<bar>field_int f r\<bar>) (snd a)) \<le> sum_list (map (\<lambda>r. \<bar>field_int f r\<bar>) rows)"
    if "a \<in> set (group_rows python_ops d)" for a f
  proof -
    have "sum_list (map (\<lambda>r. \<bar>field_int f r\<bar>) (snd a))
            \<le> sum_list (map (\<lambda>r. \<bar>field_int f r\<bar>) (concat (map snd (group_rows python_ops d))))"
      by (rule sum_list_member_le[OF that]) simp
    also have "\<dots> = sum_list (map (\<lambda>r. \<bar>field_int f r\<bar>) d)"
      by (rule sum_list_map_mset[OF mset_group_rows])
    finally show ?thesis by (simp only: d)
  qed
  have "sum_defined python_ops f rs"
    if "f \<in> set numeric_fields" and "rs \<in> set (summed_lists python_ops rows)" for f rs
  proof -
    have "sum_list (map (\<lambda>r. \<bar>field_int f r\<bar>) rs) \<le> sum_list (map (\<lambda>r. \<bar>field_int f r\<bar>) rows)"
      using that(2) g[of _ f] d[of f] by (auto simp: l)
    also have "\<dots> \<le> 2 ^ 1023" using assms(2) that(1) by blast
    finally show ?thesis using py_sum_python_defined[of f rs] by (simp add: sum_defined_iff)
  qed
  then show ?thesis by (simp add: sums_defined_def list_all_iff)
qed

lemma int_rows_keys:
  "sort_item row_int = VStr ''B''" "group_item row_int = VStr ''B''" "item_is_str row_int"
  "item_is_str row_fifth" "item_is_str row_half"
  by (simp_all add: sort_item_def group_item_def item_is_str_def row_int_def row_fifth_def
      row_half_def)

lemma int_rows_totals:
  "totals python_ops [row_int, row_fifth, row_half] =
     Inr [''NW'' \<mapsto> VFloat (Fin (5263582064489267 / 281474976710656))]"
proof -
  have "sum_from (VInt 0) [VInt 18, VFloat (Fin (3602879701896397 / 18014398509481984)),
                           VFloat (Fin (1 / 2))]
          = Inr (VFloat (Fin (5263582064489267 / 281474976710656)))"
    by (simp add: num_add_def as_float_def float_of_int_small bind_err_def fadd_examples
        del: fadd.simps)
  then show ?thesis
    by (simp add: totals_def numeric_fields_def any_has_simps summands_simps summand_def
        py_sum_python row_int_def row_fifth_def row_half_def del: sum_from.simps)
qed

lemma int_rows_eval:
  "sort_and_subtotal python_ops [row_int, row_fifth, row_half] =
     Inr \<lparr> data = [row_int, row_fifth, row_half],
           subtotals = [(VStr ''B'', [''NW'' \<mapsto> VFloat (Fin (5263582064489267 / 281474976710656))])],
           grand_total = [''NW'' \<mapsto> VFloat (Fin (5263582064489267 / 281474976710656))] \<rparr>"
proof -
  have s: "sorted_py python_ops [row_int, row_fifth, row_half] = Inr [row_int, row_fifth, row_half]"
    by (simp add: int_rows_keys fifth_keys)
  have g: "group_rows python_ops [row_int, row_fifth, row_half] =
             [(VStr ''B'', [row_int, row_fifth, row_half])]"
    by (simp add: group_rows_def int_rows_keys fifth_keys)
  show ?thesis
    by (simp only: sort_and_subtotal_def s bind_err_simps g subtotal_items.simps int_rows_totals)
qed

text \<open>
  Claim C9, amended. When the \<open>ITEM\<close> of every record is absent or a string, the
  aggregation returns a report exactly when none of the sums it takes raises, and
  \<^verbatim>\<open>OverflowError\<close> is all it can raise: a sum raises it when an integer too large for a
  float is to be added to a float. In particular the aggregation returns a report when,
  in each numeric field, the absolute values of the integers the records hold add up to
  $2^{1023}$ at most.
\<close>

theorem sort_and_subtotal_returns:
  assumes "\<forall>r\<in>set rows. item_is_str r"
  shows "((\<exists>res. sort_and_subtotal python_ops rows = Inr res) = sums_defined python_ops rows)
       \<and> (\<forall>e. sort_and_subtotal python_ops rows = Inl e \<longrightarrow> e = OverflowError)
       \<and> ((\<forall>f\<in>set numeric_fields. sum_list (map (\<lambda>r. \<bar>field_int f r\<bar>) rows) \<le> 2 ^ 1023) \<longrightarrow>
             (\<exists>res. sort_and_subtotal python_ops rows = Inr res))"
proof -
  note s = sorted_py_str[OF assms, of python_ops]
  note iff = sort_and_subtotal_defined_iff[OF s]
  show ?thesis
    using iff sort_and_subtotal_error[OF s] sums_defined_bounded[OF s] by blast
qed

text \<open>
  Three records of one group hold \<open>18\<close>, \<open>0.2\<close> and \<open>0.5\<close> in \<open>NW\<close>: the sum is
  \<open>(18 + 0.2) + 0.5 = 18.7\<close>, the integer being converted to a float.
\<close>

theorem sort_and_subtotal_returns_witness:
  "item_is_str row_int \<and> item_is_str row_fifth \<and> item_is_str row_half
   \<and> sums_defined python_ops [row_int, row_fifth, row_half]
   \<and> sort_and_subtotal python_ops [row_int, row_fifth, row_half] =
       Inr \<lparr> data = [row_int, row_fifth, row_half],
             subtotals = [(VStr ''B'', [''NW'' \<mapsto> VFloat (Fin (5263582064489267 / 281474976710656))])],
             grand_total = [''NW'' \<mapsto> VFloat (Fin (5263582064489267 / 281474976710656))] \<rparr>"
  using sort_and_subtotal_returns[of "[row_int, row_fifth, row_half]"]
  by (simp add: int_rows_keys int_rows_eval)

subsection \<open>Records without a group key\<close>

lemma same_key_str: "same_key ops k (VStr s) = (k = VStr s)"
  by (cases k) auto

lemma append_row_has:
  "\<exists>rs. (VStr s, rs) \<in> set (append_row ops (VStr s) x g) \<and> x \<in> set rs"
proof (induction g)
  case Nil
  then show ?case by simp
next
  case (Cons a g)
  obtain k rs where a: "a = (k, rs)" by (cases a)
  show ?case
  proof (cases "same_key ops k (VStr s)")
    case True
    then have "(VStr s, rs @ [x]) \<in> set (append_row ops (VStr s) x (a # g))"
      by (simp add: a same_key_str)
    then show ?thesis by (intro exI[of _ "rs @ [x]"]) simp
  next
    case False
    from Cons obtain rs' where "(VStr s, rs') \<in> set (append_row ops (VStr s) x g)" "x \<in> set rs'"
      by blast
    then show ?thesis using False by (intro exI[of _ rs']) (simp add: a)
  qed
qed

lemma append_row_keeps:
  assumes "(k, rs) \<in> set g"
  shows "\<exists>rs'. (k, rs') \<in> set (append_row ops k' x g) \<and> set rs \<subseteq> set rs'"
  using assms
proof (induction g)
  case Nil
  then show ?case by simp
next
  case (Cons a g)
  obtain k0 rs0 where a: "a = (k0, rs0)" by (cases a)
  show ?case
  proof (cases "(k, rs) = a")
    case True
    then have k: "k0 = k" "rs0 = rs" by (simp_all add: a)
    show ?thesis
    proof (cases "same_key ops k k'")
      case True
      then show ?thesis by (intro exI[of _ "rs @ [x]"]) (auto simp: a k)
    next
      case False
      then show ?thesis by (intro exI[of _ rs]) (auto simp: a k)
    qed
  next
    case False
    with Cons.prems have in_g: "(k, rs) \<in> set g" by simp
    from Cons.IH[OF this] obtain rs' where
      rs': "(k, rs') \<in> set (append_row ops k' x g)" "set rs \<subseteq> set rs'" by blast
    show ?thesis
    proof (cases "same_key ops k0 k'")
      case True
      then show ?thesis using in_g by (intro exI[of _ rs]) (simp add: a)
    next
      case False
      then show ?thesis using rs' by (intro exI[of _ rs']) (simp add: a)
    qed
  qed
qed

lemma group_rows_member:
  assumes "r \<in> set rows" and "group_item r = VStr s"
  shows "\<exists>rs. (VStr s, rs) \<in> set (group_rows ops rows) \<and> r \<in> set rs"
  using assms
proof (induction rows rule: rev_induct)
  case Nil
  then show ?case by simp
next
  case (snoc x xs)
  show ?case
  proof (cases "r = x")
    case True
    then show ?thesis using snoc.prems(2) append_row_has[of s ops x "group_rows ops xs"]
      by (simp add: group_rows_snoc)
  next
    case False
    with snoc obtain rs where "(VStr s, rs) \<in> set (group_rows ops xs)" "r \<in> set rs" by auto
    then show ?thesis
      using append_row_keeps[of "VStr s" rs "group_rows ops xs" ops "group_item x" x]
      by (auto simp: group_rows_snoc)
  qed
qed

lemma subtotals_keys:
  assumes "sort_and_subtotal ops rows = Inr res"
  shows "map fst (subtotals res) = map fst (group_rows ops (data res))"
proof -
  have "list_all2 (\<lambda>a b. fst a = fst b) (group_rows ops (data res)) (subtotals res)"
    using groups_subtotals[OF assms] by (rule list_all2_mono) simp
  then show ?thesis
    by (induction rule: list_all2_induct) auto
qed

text \<open>
  Claim C6, amended. A record whose \<open>ITEM\<close> is absent is in the group of key
  \<open>Unknown\<close>, and a record whose \<open>ITEM\<close> is the empty string is in the group whose
  key is the empty string; each of the two keys then has a subtotal row.
\<close>

theorem missing_item_group:
  assumes "sort_and_subtotal ops rows = Inr res" and "r \<in> set rows"
  shows "(r ''ITEM'' = None \<longrightarrow>
            (\<exists>rs. (VStr ''Unknown'', rs) \<in> set (group_rows ops (data res)) \<and> r \<in> set rs)
            \<and> VStr ''Unknown'' \<in> set (map fst (subtotals res)))
       \<and> (r ''ITEM'' = Some (VStr '''') \<longrightarrow>
            (\<exists>rs. (VStr '''', rs) \<in> set (group_rows ops (data res)) \<and> r \<in> set rs)
            \<and> VStr '''' \<in> set (map fst (subtotals res)))"
proof -
  have mem: "r \<in> set (data res)" using data_set[OF assms(1)] assms(2) by simp
  have g: "(\<exists>rs. (VStr s, rs) \<in> set (group_rows ops (data res)) \<and> r \<in> set rs)
           \<and> VStr s \<in> set (map fst (subtotals res))" if "group_item r = VStr s" for s
  proof -
    from group_rows_member[OF mem that] obtain rs where
      rs: "(VStr s, rs) \<in> set (group_rows ops (data res))" "r \<in> set rs" by blast
    then have "VStr s \<in> set (map fst (group_rows ops (data res)))" by force
    then show ?thesis using rs by (auto simp: subtotals_keys[OF assms(1)])
  qed
  have "group_item r = VStr ''Unknown''" if "r ''ITEM'' = None"
    using that by (simp add: group_item_def)
  moreover have "group_item r = VStr ''''" if "r ''ITEM'' = Some (VStr '''')"
    using that by (simp add: group_item_def)
  ultimately show ?thesis using g by blast
qed

lemma item_keys:
  "sort_item row_no_item = VStr ''''" "sort_item row_empty_item = VStr ''''"
  "sort_item row_item_A = VStr ''A''"
  "group_item row_no_item = VStr ''Unknown''" "group_item row_empty_item = VStr ''''"
  "group_item row_item_A = VStr ''A''"
  by (simp_all add: sort_item_def group_item_def row_no_item_def row_empty_item_def row_item_A_def)

lemma item_totals:
  "totals ops [row_no_item] = Inr Map.empty" "totals ops [row_empty_item] = Inr Map.empty"
  "totals ops [row_item_A] = Inr Map.empty"
  "totals ops [row_no_item, row_item_A] = Inr Map.empty"
  "totals ops [row_no_item, row_empty_item, row_item_A] = Inr Map.empty"
  by (simp_all add: totals_def numeric_fields_def any_has_simps
      row_no_item_def row_empty_item_def row_item_A_def)

lemma empty_item_eval:
  "sort_and_subtotal ops [row_empty_item] =
     Inr \<lparr> data = [row_empty_item], subtotals = [(VStr '''', Map.empty)],
           grand_total = Map.empty \<rparr>"
proof -
  have s: "sorted_py ops [row_empty_item] = Inr [row_empty_item]" by simp
  have g: "group_rows ops [row_empty_item] = [(VStr '''', [row_empty_item])]"
    by (simp add: group_rows_def item_keys)
  show ?thesis
    by (simp only: sort_and_subtotal_def s bind_err_simps g subtotal_items.simps item_totals)
qed

lemma no_item_eval:
  "sort_and_subtotal ops [row_item_A, row_no_item] =
     Inr \<lparr> data = [row_no_item, row_item_A],
           subtotals = [(VStr ''Unknown'', Map.empty), (VStr ''A'', Map.empty)],
           grand_total = Map.empty \<rparr>"
proof -
  have s: "sorted_py ops [row_item_A, row_no_item] = Inr [row_no_item, row_item_A]"
    by (simp add: item_keys)
  have g: "group_rows ops [row_no_item, row_item_A] =
             [(VStr ''Unknown'', [row_no_item]), (VStr ''A'', [row_item_A])]"
    by (simp add: group_rows_def item_keys)
  show ?thesis
    by (simp only: sort_and_subtotal_def s bind_err_simps g subtotal_items.simps item_totals)
qed

lemma three_items_eval:
  "sort_and_subtotal ops [row_item_A, row_no_item, row_empty_item] =
     Inr \<lparr> data = [row_no_item, row_empty_item, row_item_A],
           subtotals = [(VStr ''Unknown'', Map.empty), (VStr '''', Map.empty),
                        (VStr ''A'', Map.empty)],
           grand_total = Map.empty \<rparr>"
proof -
  have s: "sorted_py ops [row_item_A, row_no_item, row_empty_item] =
             Inr [row_no_item, row_empty_item, row_item_A]"
    by (simp add: item_keys)
  have g: "group_rows ops [row_no_item, row_empty_item, row_item_A] =
             [(VStr ''Unknown'', [row_no_item]), (VStr '''', [row_empty_item]),
              (VStr ''A'', [row_item_A])]"
    by (simp add: group_rows_def item_keys)
  show ?thesis
    by (simp only: sort_and_subtotal_def s bind_err_simps g subtotal_items.simps item_totals)
qed

text \<open>
  Claim C6. A record whose \<open>ITEM\<close> is the empty string is not grouped under
  \<open>Unknown\<close>: alone, it makes one group whose key is the empty string. A record without
  \<open>ITEM\<close> does not sort by the label \<open>Unknown\<close>: it comes before the record of
  \<open>ITEM\<close> \<open>A\<close>, and so does its group, although \<open>A\<close> is smaller than \<open>Unknown\<close>.
\<close>

theorem empty_item_not_unknown:
  "sort_and_subtotal python_ops [row_empty_item] =
     Inr \<lparr> data = [row_empty_item], subtotals = [(VStr '''', Map.empty)],
           grand_total = Map.empty \<rparr>
   \<and> (row_empty_item :: pyfloat row) ''ITEM'' = Some (VStr '''')
   \<and> VStr '''' \<noteq> (VStr ''Unknown'' :: pyfloat pyval)
   \<and> sort_and_subtotal python_ops [row_item_A, row_no_item] =
       Inr \<lparr> data = [row_no_item, row_item_A],
             subtotals = [(VStr ''Unknown'', Map.empty), (VStr ''A'', Map.empty)],
             grand_total = Map.empty \<rparr>
   \<and> (row_no_item :: pyfloat row) ''ITEM'' = None
   \<and> ''A'' < ''Unknown''"
proof -
  have a: "(row_empty_item :: pyfloat row) ''ITEM'' = Some (VStr '''')"
    "(row_no_item :: pyfloat row) ''ITEM'' = None"
    by (simp_all add: row_empty_item_def row_no_item_def)
  show ?thesis using a by (simp add: empty_item_eval no_item_eval)
qed

theorem missing_item_group_witness:
  "sort_and_subtotal python_ops [row_item_A, row_no_item, row_empty_item] =
     Inr \<lparr> data = [row_no_item, row_empty_item, row_item_A],
           subtotals = [(VStr ''Unknown'', Map.empty), (VStr '''', Map.empty),
                        (VStr ''A'', Map.empty)],
           grand_total = Map.empty \<rparr>
   \<and> (row_no_item :: pyfloat row) ''ITEM'' = None
   \<and> (row_empty_item :: pyfloat row) ''ITEM'' = Some (VStr '''')
   \<and> group_rows python_ops [row_no_item, row_empty_item, row_item_A] =
        [(VStr ''Unknown'', [row_no_item]), (VStr '''', [row_empty_item]),
         (VStr ''A'', [row_item_A])]"
proof -
  note t = missing_item_group[OF three_items_eval[of python_ops], of row_no_item]
  have a: "(row_no_item :: pyfloat row) ''ITEM'' = None"
    "(row_empty_item :: pyfloat row) ''ITEM'' = Some (VStr '''')"
    by (simp_all add: row_no_item_def row_empty_item_def)
  have g: "group_rows python_ops [row_no_item, row_empty_item, row_item_A] =
             [(VStr ''Unknown'', [row_no_item]), (VStr '''', [row_empty_item]),
              (VStr ''A'', [row_item_A])]"
    by (simp add: group_rows_def item_keys)
  show ?thesis using t a g by (simp add: three_items_eval)
qed

subsection \<open>The assembled report\<close>

lemma unique_snoc:
  "unique (xs @ [x]) = (if x \<in> set (unique xs) then unique xs else unique xs @ [x])"
  by (simp add: unique_def)

lemma set_unique [simp]: "set (unique xs) = set xs"
  by (induction xs rule: rev_induct) (auto simp: unique_snoc, simp add: unique_def)

lemma distinct_unique [simp]: "distinct (unique xs)"
  by (induction xs rule: rev_induct) (auto simp: unique_snoc, simp add: unique_def)

lemma sorted_unique:
  fixes xs :: "'a::linorder list"
  shows "sorted xs \<Longrightarrow> sorted (unique xs)"
proof (induction xs rule: rev_induct)
  case Nil
  then show ?case by (simp add: unique_def)
next
  case (snoc x xs)
  then show ?case by (auto simp: unique_snoc sorted_append)
qed

lemma unique_sorted:
  fixes xs :: "'a::linorder list"
  assumes "sorted xs"
  shows "unique xs = sort (remdups xs)"
  by (rule sorted_distinct_set_unique) (simp_all add: sorted_unique[OF assms])

lemma foldl_append_concat:
  "foldl (\<lambda>acc k. (acc @ F k) @ G k) a ks = a @ concat (map (\<lambda>k. F k @ G k) ks)"
  by (induction ks arbitrary: a) simp_all

lemma filter_eq_distinct:
  "distinct ks \<Longrightarrow> k \<in> set ks \<Longrightarrow> filter (\<lambda>k'. k' = k) ks = [k]"
  by (induction ks) (auto simp: filter_empty_conv)

lemma own_subtotal:
  assumes "distinct ks" and "k \<in> set ks"
  shows "filter (\<lambda>s. df_item s = k @ '' Subtotal'') (map (subtotal_row pd ds) ks)
           = [subtotal_row pd ds k]"
proof -
  have "((\<lambda>s. df_item s = k @ '' Subtotal'') \<circ> subtotal_row pd ds) = (\<lambda>k'. k' = k)"
    by (auto simp: subtotal_row_def fun_eq_iff)
  then show ?thesis
    using filter_eq_distinct[OF assms] by (simp add: filter_map)
qed

lemma df_report:
  assumes "sorted (map df_item (sort_values pd df))"
  shows "sort_and_subtotal_df pd df =
           concat (map (\<lambda>k. filter (\<lambda>r. df_item r = k) (sort_values pd df)
                             @ [subtotal_row pd (sort_values pd df) k])
                       (sort (remdups (map df_item (sort_values pd df)))))
           @ [grand_total_row pd (sort_values pd df)]"
proof -
  let ?ds = "sort_values pd df"
  let ?ks = "sort (remdups (map df_item ?ds))"
  let ?F = "\<lambda>k. filter (\<lambda>r. df_item r = k) ?ds"
  let ?G = "\<lambda>k. filter (\<lambda>s. df_item s = k @ '' Subtotal'') (group_subtotals pd ?ds)"
  have u: "unique (map df_item ?ds) = ?ks" by (rule unique_sorted[OF assms])
  have m: "map (\<lambda>k. ?F k @ ?G k) ?ks = map (\<lambda>k. ?F k @ [subtotal_row pd ?ds k]) ?ks"
    by (rule map_cong[OF refl]) (simp add: group_subtotals_def own_subtotal)
  have "sort_and_subtotal_df pd df
          = foldl (\<lambda>acc k. (acc @ ?F k) @ ?G k) [] ?ks @ [grand_total_row pd ?ds]"
    by (simp only: sort_and_subtotal_df_def Let_def u)
  also have "\<dots> = concat (map (\<lambda>k. ?F k @ ?G k) ?ks) @ [grand_total_row pd ?ds]"
    by (simp only: foldl_append_concat append_Nil)
  finally show ?thesis by (simp only: m)
qed

lemma group_item_str: "item_is_str r \<Longrightarrow> \<exists>s. group_item r = VStr s"
  by (cases "r ''ITEM''"; cases "the (r ''ITEM'')") (auto simp: item_is_str_def group_item_def)

lemma keys_append_row:
  "map fst (append_row ops (VStr s) x g) =
     (if VStr s \<in> set (map fst g) then map fst g else map fst g @ [VStr s])"
proof (induction g)
  case Nil
  then show ?case by simp
next
  case (Cons a g)
  obtain k rs where a: "a = (k, rs)" by (cases a)
  show ?case
  proof (cases "k = VStr s")
    case True
    then show ?thesis by (simp add: a same_key_str)
  next
    case False
    then have "VStr s \<noteq> k" by blast
    with False Cons show ?thesis by (simp add: a same_key_str)
  qed
qed

lemma group_keys_unique:
  assumes "\<forall>r\<in>set rows. item_is_str r"
  shows "map fst (group_rows ops rows) = unique (map group_item rows)"
  using assms
proof (induction rows rule: rev_induct)
  case Nil
  then show ?case by (simp add: group_rows_def unique_def)
next
  case (snoc x xs)
  then obtain s where s: "group_item x = VStr s" using group_item_str[of x] by auto
  from snoc have "map fst (group_rows ops xs) = unique (map group_item xs)" by simp
  then show ?case
    by (simp add: group_rows_snoc s keys_append_row unique_snoc)
qed

lemma totals_no_label:
  assumes "totals ops rs = Inr t"
  shows "t ''ITEM'' = None"
  using totals_result(1)[OF assms, of "''ITEM''"] by (simp add: numeric_fields_def)

lemma subtotals_no_label:
  assumes "sort_and_subtotal ops rows = Inr res" and "b \<in> set (subtotals res)"
  shows "snd b ''ITEM'' = None"
proof -
  from list_all2_right[OF groups_subtotals[OF assms(1)] assms(2)]
  obtain a where "totals ops (snd a) = Inr (snd b)" by auto
  then show ?thesis by (rule totals_no_label)
qed

text \<open>
  Claim C5, amended. The offline variant of \<^verbatim>\<open>data_structure.py\<close> assembles one sequence
  of rows: for each group key in ascending order (the order in which \<^verbatim>\<open>sort_values\<close>
  leaves the rows), the rows of the group in their order after the sort, then one
  subtotal row labelled with the key followed by \<open>" Subtotal"\<close>; and last one grand-total
  row labelled \<open>"Grand Total"\<close>. The variant of \<^verbatim>\<open>sheets.py\<close> does not interleave: for
  records whose \<open>ITEM\<close> is absent or a string it returns the sorted rows, one subtotal
  for each group under the group key itself, in the order in which the keys first appear
  in the sorted rows, and one grand total; neither the subtotals nor the grand total
  carry a label.
\<close>

theorem report_assembly:
  assumes "sorted (map df_item (sort_values pd df))"
    and "sort_and_subtotal ops rows = Inr res"
    and "\<forall>r\<in>set rows. item_is_str r"
  shows "sort_and_subtotal_df pd df =
           concat (map (\<lambda>k. filter (\<lambda>r. df_item r = k) (sort_values pd df)
                             @ [\<lparr> df_item = k @ '' Subtotal'',
                                  df_cells = sum_columns pd
                                    (filter (\<lambda>r. df_item r = k) (sort_values pd df)) \<rparr>])
                       (sort (remdups (map df_item (sort_values pd df)))))
           @ [\<lparr> df_item = ''Grand Total'', df_cells = sum_columns pd (sort_values pd df) \<rparr>]
       \<and> data res = sort_key item_text rows
       \<and> map fst (subtotals res) = unique (map group_item (data res))
       \<and> (\<forall>b\<in>set (subtotals res). snd b ''ITEM'' = None)
       \<and> grand_total res ''ITEM'' = None"
proof -
  have d: "data res = sort_key item_text rows"
    using sort_and_subtotal_parts(1)[OF assms(2)] sorted_py_str[OF assms(3), of ops] by simp
  have "\<forall>r\<in>set (data res). item_is_str r" using assms(3) by (simp add: d)
  then have k: "map fst (subtotals res) = unique (map group_item (data res))"
    by (simp add: subtotals_keys[OF assms(2)] group_keys_unique)
  have l: "\<forall>b\<in>set (subtotals res). snd b ''ITEM'' = None"
    using subtotals_no_label[OF assms(2)] by blast
  have g: "grand_total res ''ITEM'' = None"
    by (rule totals_no_label[OF sort_and_subtotal_parts(3)[OF assms(2)]])
  show ?thesis
    using df_report[OF assms(1)] d k l g
    by (simp add: subtotal_row_def grand_total_row_def)
qed

lemma df_rows_at:
  "df_item df_power = ''POWER''" "df_item df_cable1 = ''CABLE''" "df_item df_cable2 = ''CABLE''"
  "df_cells df_power = [''CTNS'' \<mapsto> VInt 3]" "df_cells df_cable1 = [''CTNS'' \<mapsto> VInt 10]"
  "df_cells df_cable2 = [''CTNS'' \<mapsto> VInt 7]"
  by (simp_all add: df_power_def df_cable1_def df_cable2_def)

lemma df_sorted_eval:
  "sort_values list_pd_ops [df_power, df_cable1, df_cable2] = [df_cable1, df_cable2, df_power]"
  by (simp add: list_pd_ops_def df_rows_at)

lemma df_sums_eval:
  "sum_columns list_pd_ops [df_cable1, df_cable2] =
     [''CTNS'' \<mapsto> VInt 17, ''TOTAL'' \<mapsto> VInt 0, ''TOTAL NW'' \<mapsto> VInt 0, ''TOTAL GW'' \<mapsto> VInt 0]"
  "sum_columns list_pd_ops [df_power] =
     [''CTNS'' \<mapsto> VInt 3, ''TOTAL'' \<mapsto> VInt 0, ''TOTAL NW'' \<mapsto> VInt 0, ''TOTAL GW'' \<mapsto> VInt 0]"
  "sum_columns list_pd_ops [df_cable1, df_cable2, df_power] =
     [''CTNS'' \<mapsto> VInt 20, ''TOTAL'' \<mapsto> VInt 0, ''TOTAL NW'' \<mapsto> VInt 0, ''TOTAL GW'' \<mapsto> VInt 0]"
  by (simp_all add: sum_columns_def list_pd_ops_def df_rows_at field_int_def int_of_def)

lemma df_keys_eval:
  "sort (remdups (map df_item [df_cable1, df_cable2, df_power])) = [''CABLE'', ''POWER'']"
  by (simp add: df_rows_at)

lemma cable_is_str: "item_is_str row_p" "item_is_str row_c1" "item_is_str row_c2"
  by (simp_all add: item_is_str_def row_p_def row_c1_def row_c2_def)

text \<open>
  Claim C5. The report of \<^verbatim>\<open>sheets.py\<close> is not one sequence in which a subtotal row
  follows the rows of its group: the three data rows stand alone under \<open>data\<close>, the
  subtotals are under \<open>subtotals\<close>, keyed by \<open>CABLE\<close> and \<open>POWER\<close> and not by
  \<open>CABLE Subtotal\<close>, and neither a subtotal nor the grand total has an \<open>ITEM\<close> label.
\<close>

theorem api_report_not_assembled:
  "sort_and_subtotal python_ops [row_p, row_c1, row_c2] =
     Inr \<lparr> data = [row_c1, row_c2, row_p],
           subtotals =
             [(VStr ''CABLE'', [''CTNS'' \<mapsto> VInt 17, ''TOTAL'' \<mapsto> VInt 1200, ''GW'' \<mapsto> VInt 20]),
              (VStr ''POWER'', [''CTNS'' \<mapsto> VInt 3, ''GW'' \<mapsto> VInt 0])],
           grand_total = [''CTNS'' \<mapsto> VInt 20, ''TOTAL'' \<mapsto> VInt 1200, ''GW'' \<mapsto> VInt 20] \<rparr>
   \<and> [''CTNS'' \<mapsto> VInt 17, ''TOTAL'' \<mapsto> VInt 1200, ''GW'' \<mapsto> VInt (20 :: int) :: pyfloat pyval] ''ITEM'' = None
   \<and> [''CTNS'' \<mapsto> VInt 20, ''TOTAL'' \<mapsto> VInt 1200, ''GW'' \<mapsto> VInt (20 :: int) :: pyfloat pyval] ''ITEM'' = None
   \<and> VStr ''CABLE'' \<noteq> (VStr ''CABLE Subtotal'' :: pyfloat pyval)"
  by (simp add: cable_eval)

theorem report_assembly_witness:
  "sorted (map df_item (sort_values list_pd_ops [df_power, df_cable1, df_cable2]))
   \<and> sort_and_subtotal_df list_pd_ops [df_power, df_cable1, df_cable2] =
       [df_cable1, df_cable2,
        \<lparr> df_item = ''CABLE Subtotal'',
          df_cells = [''CTNS'' \<mapsto> VInt 17, ''TOTAL'' \<mapsto> VInt 0, ''TOTAL NW'' \<mapsto> VInt 0,
                      ''TOTAL GW'' \<mapsto> VInt 0] \<rparr>,
        df_power,
        \<lparr> df_item = ''POWER Subtotal'',
          df_cells = [''CTNS'' \<mapsto> VInt 3, ''TOTAL'' \<mapsto> VInt 0, ''TOTAL NW'' \<mapsto> VInt 0,
                      ''TOTAL GW'' \<mapsto> VInt 0] \<rparr>,
        \<lparr> df_item = ''Grand Total'',
          df_cells = [''CTNS'' \<mapsto> VInt 20, ''TOTAL'' \<mapsto> VInt 0, ''TOTAL NW'' \<mapsto> VInt 0,
                      ''TOTAL GW'' \<mapsto> VInt 0] \<rparr>]
   \<and> item_is_str (row_p :: pyfloat row) \<and> item_is_str (row_c1 :: pyfloat row) \<and> item_is_str (row_c2 :: pyfloat row)
   \<and> sort_and_subtotal python_ops [row_p, row_c1, row_c2] =
       Inr \<lparr> data = [row_c1, row_c2, row_p],
             subtotals =
               [(VStr ''CABLE'', [''CTNS'' \<mapsto> VInt 17, ''TOTAL'' \<mapsto> VInt 1200, ''GW'' \<mapsto> VInt 20]),
                (VStr ''POWER'', [''CTNS'' \<mapsto> VInt 3, ''GW'' \<mapsto> VInt 0])],
             grand_total = [''CTNS'' \<mapsto> VInt 20, ''TOTAL'' \<mapsto> VInt 1200, ''GW'' \<mapsto> VInt 20] \<rparr>"
proof -
  have srt: "sorted (map df_item (sort_values list_pd_ops [df_power, df_cable1, df_cable2]))"
    by (simp add: df_sorted_eval df_rows_at)
  have str: "\<forall>r\<in>set [row_p, row_c1, row_c2 :: pyfloat row]. item_is_str r"
    by (simp add: cable_is_str)
  note t = report_assembly[OF srt cable_eval[of python_ops] str]
  have "sort_and_subtotal_df list_pd_ops [df_power, df_cable1, df_cable2] =
       [df_cable1, df_cable2,
        \<lparr> df_item = ''CABLE Subtotal'',
          df_cells = [''CTNS'' \<mapsto> VInt 17, ''TOTAL'' \<mapsto> VInt 0, ''TOTAL NW'' \<mapsto> VInt 0,
                      ''TOTAL GW'' \<mapsto> VInt 0] \<rparr>,
        df_power,
        \<lparr> df_item = ''POWER Subtotal'',
          df_cells = [''CTNS'' \<mapsto> VInt 3, ''TOTAL'' \<mapsto> VInt 0, ''TOTAL NW'' \<mapsto> VInt 0,
                      ''TOTAL GW'' \<mapsto> VInt 0] \<rparr>,
        \<lparr> df_item = ''Grand Total'',
          df_cells = [''CTNS'' \<mapsto> VInt 20, ''TOTAL'' \<mapsto> VInt 0, ''TOTAL NW'' \<mapsto> VInt 0,
                      ''TOTAL GW'' \<mapsto> VInt 0] \<rparr>]"
    using t[THEN conjunct1] unfolding df_sorted_eval df_keys_eval
    by (simp add: df_rows_at df_sums_eval)
  then show ?thesis using srt by (simp add: cable_is_str cable_eval)
qed

end
